theory Spec2Isabelle
  imports Complex_Main
begin

section \<open>JavaScript values\<close>

text \<open>
  The engine computes with JavaScript numbers.  For the structure of the computation
  they are read as real numbers: \<open>Math.exp\<close>, \<open>Math.log\<close>, \<open>Math.sqrt\<close>, \<open>Math.cos\<close> and
  \<open>Math.pow\<close> are \<open>exp\<close>, \<open>ln\<close>, \<open>sqrt\<close>, \<open>cos\<close> and \<open>powr\<close>, and rounding error is
  left out.  Where the source would produce \<open>NaN\<close> or an infinity (a division by zero,
  the logarithm of a non-positive price) the real-valued reading says nothing about it,
  and the theorems over it are stated away from those inputs.  Whether a result lies in
  an interval is not decided by that reading; for \<open>detrend\<close> and \<open>rollingAR1\<close> it is
  settled on a second embedding, over IEEE 754 doubles, further below.  Array entries
  that can be \<open>null\<close> are \<open>option\<close> values, \<open>None\<close> being \<open>null\<close>.
\<close>

text \<open>
  \<open>Array.prototype.slice(start, end)\<close>: a negative index counts from the end, and
  both indices are clamped to the array.
\<close>

definition js_slice :: "'a list \<Rightarrow> int \<Rightarrow> int \<Rightarrow> 'a list" where
  "js_slice xs start fin =
     (let len = int (length xs);
          k = (if start < 0 then max (len + start) 0 else min start len);
          final = (if fin < 0 then max (len + fin) 0 else min fin len)
      in take (nat (final - k)) (drop (nat k) xs))"

definition js_slice_from :: "'a list \<Rightarrow> int \<Rightarrow> 'a list" where
  "js_slice_from xs start = js_slice xs start (int (length xs))"

text \<open>\<open>xs.filter(v => v !== null)\<close> on an array of numbers and nulls.\<close>

primrec non_null :: "'a option list \<Rightarrow> 'a list" where
  "non_null [] = []"
| "non_null (v # vs) = (case v of None \<Rightarrow> non_null vs | Some x \<Rightarrow> x # non_null vs)"

text \<open>\<open>Math.round\<close> rounds to the nearest integer, halves upwards.\<close>

definition js_round :: "real \<Rightarrow> int" where
  "js_round x = \<lfloor>x + 1 / 2\<rfloor>"

section \<open>The statistical engine (\<open>lib/statistical-engine.js\<close>)\<close>

subsection \<open>Detrending\<close>

definition gaussianKernel :: "real \<Rightarrow> real \<Rightarrow> real" where
  "gaussianKernel x bandwidth =
     exp (- 0.5 * (x / bandwidth)\<^sup>2) / (bandwidth * sqrt (2 * pi))"

text \<open>
  The inner loop of \<open>detrend\<close> for one index \<open>i\<close>: it runs \<open>j\<close> over the whole series
  and accumulates \<open>weightSum\<close> and \<open>valueSum\<close>.
\<close>

definition kernel_sums :: "real list \<Rightarrow> real \<Rightarrow> nat \<Rightarrow> real \<times> real" where
  "kernel_sums data bandwidth i =
     foldl (\<lambda>(weightSum, valueSum) j.
              let weight = gaussianKernel (real_of_int (int i - int j)) bandwidth
              in (weightSum + weight, valueSum + weight * data ! j))
           (0, 0) [0..<length data]"

record detrended =
  trend :: "real list"
  residuals :: "real list"

definition detrend :: "real list \<Rightarrow> real \<Rightarrow> detrended" where
  "detrend data bandwidth =
     (let n = length data;
          tr = map (\<lambda>i. case kernel_sums data bandwidth i of
                            (weightSum, valueSum) \<Rightarrow> valueSum / weightSum) [0..<n];
          res = map (\<lambda>i. data ! i - tr ! i) [0..<n]
      in \<lparr>trend = tr, residuals = res\<rparr>)"

subsection \<open>Rolling AR(1)\<close>

text \<open>
  The two aligned windows built for index \<open>i\<close>.  The loop body runs only for
  \<open>0 \<le> j < windowSize\<close> and only when \<open>i \<ge> windowSize + 1\<close>, so every index read lies
  in \<open>0 \<le> i - windowSize + j - 1\<close> and \<open>i - windowSize + j < i\<close>: no read is out of range.
\<close>

definition ar1_windows :: "real list \<Rightarrow> int \<Rightarrow> nat \<Rightarrow> real list \<times> real list" where
  "ar1_windows res windowSize i =
     (map (\<lambda>j. res ! nat (int i - windowSize + int j)) [0..<nat windowSize],
      map (\<lambda>j. res ! nat (int i - windowSize + int j - 1)) [0..<nat windowSize])"

definition correlation_sums ::
  "real list \<Rightarrow> real list \<Rightarrow> real \<Rightarrow> real \<Rightarrow> int \<Rightarrow> real \<times> real \<times> real" where
  "correlation_sums currentWindow lagWindow meanCurrent meanLag windowSize =
     foldl (\<lambda>(cov, varCurrent, varLag) j.
              let dCurrent = currentWindow ! j - meanCurrent;
                  dLag = lagWindow ! j - meanLag
              in (cov + dCurrent * dLag, varCurrent + dCurrent * dCurrent, varLag + dLag * dLag))
           (0, 0, 0) [0..<nat windowSize]"

definition ar1_sums :: "real list \<Rightarrow> int \<Rightarrow> nat \<Rightarrow> real \<times> real \<times> real" where
  "ar1_sums res windowSize i =
     (case ar1_windows res windowSize i of (currentWindow, lagWindow) \<Rightarrow>
        let meanCurrent = foldl (+) 0 currentWindow / real_of_int windowSize;
            meanLag = foldl (+) 0 lagWindow / real_of_int windowSize
        in correlation_sums currentWindow lagWindow meanCurrent meanLag windowSize)"

definition ar1_at :: "real list \<Rightarrow> int \<Rightarrow> nat \<Rightarrow> real" where
  "ar1_at res windowSize i =
     (case ar1_sums res windowSize i of (cov, varCurrent, varLag) \<Rightarrow>
        let correlation = (if varCurrent > 0 \<and> varLag > 0
                           then cov / sqrt (varCurrent * varLag) else 0)
        in max (- 1) (min 1 correlation))"

definition rollingAR1 :: "real list \<Rightarrow> int \<Rightarrow> real option list" where
  "rollingAR1 res windowSize =
     map (\<lambda>i. if int i < windowSize + 1 then None else Some (ar1_at res windowSize i))
         [0..<length res]"

subsection \<open>Rolling variance\<close>

definition variance_at :: "real list \<Rightarrow> int \<Rightarrow> nat \<Rightarrow> real" where
  "variance_at res windowSize i =
     (let window = js_slice res (int i - windowSize) (int i);
          mean = foldl (+) 0 window / real_of_int windowSize;
          sumSq = foldl (\<lambda>sum val. sum + (val - mean)\<^sup>2) 0 window
      in sumSq / (real_of_int windowSize - 1))"

definition rollingVariance :: "real list \<Rightarrow> int \<Rightarrow> real option list" where
  "rollingVariance res windowSize =
     map (\<lambda>i. if int i < windowSize then None else Some (variance_at res windowSize i))
         [0..<length res]"

subsection \<open>Kendall's tau\<close>

text \<open>One pass of the inner loop over \<open>j\<close> and the double loop over all pairs \<open>i < j\<close>.\<close>

definition tau_step :: "real list \<Rightarrow> nat \<Rightarrow> nat \<times> nat \<Rightarrow> nat \<Rightarrow> nat \<times> nat" where
  "tau_step recent i = (\<lambda>(concordant, discordant) j.
     let xDiff = real j - real i;
         yDiff = recent ! j - recent ! i
     in if xDiff * yDiff > 0 then (concordant + 1, discordant)
        else if xDiff * yDiff < 0 then (concordant, discordant + 1)
        else (concordant, discordant))"

definition tau_counts :: "real list \<Rightarrow> nat \<times> nat" where
  "tau_counts recent =
     foldl (\<lambda>acc i. foldl (tau_step recent i) acc [i + 1..<length recent])
           (0, 0) [0..<length recent - 1]"

definition kendallTau :: "real option list \<Rightarrow> int \<Rightarrow> real" where
  "kendallTau ar1Series lookback =
     (let validAr1 = non_null ar1Series;
          recent = js_slice_from validAr1 (- lookback)
      in if length recent < 10 then 0
         else case tau_counts recent of (concordant, discordant) \<Rightarrow>
           let n = real (length recent);
               pairs = (n * (n - 1)) / 2
           in if pairs > 0 then (real concordant - real discordant) / pairs else 0)"

subsection \<open>The full CSD analysis\<close>

record config =
  detrendBandwidth :: "real option"
  csdWindow :: "int option"
  tauLookback :: "int option"

datatype status = NORMAL | RISING | ELEVATED | CRITICAL

record csd_result = detrended +
  ar1Series :: "real option list"
  varianceSeries :: "real option list"
  currentAR1 :: real
  kendallTau_of :: real
  status :: status
  currentVariance :: real

definition analyzeCSD :: "real list \<Rightarrow> config \<Rightarrow> csd_result" where
  "analyzeCSD prices cfg =
     (let bandwidth = (case detrendBandwidth cfg of None \<Rightarrow> 50 | Some b \<Rightarrow> b);
          window = (case csdWindow cfg of None \<Rightarrow> 250 | Some w \<Rightarrow> w);
          lookback = (case tauLookback cfg of None \<Rightarrow> 100 | Some l \<Rightarrow> l);
          d = detrend prices bandwidth;
          ar1 = rollingAR1 (residuals d) window;
          var = rollingVariance (residuals d) window;
          tau = kendallTau ar1 lookback;
          validAr1 = non_null ar1;
          cur = (if length validAr1 > 0 then validAr1 ! (length validAr1 - 1) else 0);
          st = (if cur > 0.8 then CRITICAL else if cur > 0.7 then ELEVATED
                else if cur > 0.6 then RISING else NORMAL);
          lastVar = js_slice_from (non_null var) (- 1)
      in \<lparr>trend = trend d, residuals = residuals d, ar1Series = ar1, varianceSeries = var,
          currentAR1 = cur, kendallTau_of = tau, status = st,
          currentVariance = (case lastVar of [] \<Rightarrow> 0 | v # _ \<Rightarrow> v)\<rparr>)"


text \<open>
  The source has no \<open>throw\<close> statement in the engine, and every operation it uses
  (arithmetic, \<open>Math.*\<close>, array reads, \<open>slice\<close>, \<open>filter\<close>, \<open>reduce\<close>) is total on
  numbers and arrays of numbers: a call either returns a value or raises, and here
  it always returns.
\<close>

datatype 'a outcome = Returned 'a | Raised string

fun raised :: "'a outcome \<Rightarrow> bool" where
  "raised (Returned v) = False"
| "raised (Raised msg) = True"

definition call_detrend :: "real list \<Rightarrow> real \<Rightarrow> detrended outcome" where
  "call_detrend data bandwidth = Returned (detrend data bandwidth)"

definition call_rollingAR1 :: "real list \<Rightarrow> int \<Rightarrow> real option list outcome" where
  "call_rollingAR1 res windowSize = Returned (rollingAR1 res windowSize)"

definition call_rollingVariance :: "real list \<Rightarrow> int \<Rightarrow> real option list outcome" where
  "call_rollingVariance res windowSize = Returned (rollingVariance res windowSize)"

definition call_analyzeCSD :: "real list \<Rightarrow> config \<Rightarrow> csd_result outcome" where
  "call_analyzeCSD prices cfg = Returned (analyzeCSD prices cfg)"

subsection \<open>The rolling variance in the words of the specification\<close>

text \<open>
  The trailing window \<open>[i - windowSize, i)\<close> and the sample variance with denominator
  \<open>windowSize - 1\<close>, written as the specification states them, to compare with
  \<open>variance_at\<close>.
\<close>

definition spec_trailing_window :: "real list \<Rightarrow> nat \<Rightarrow> nat \<Rightarrow> real list" where
  "spec_trailing_window res w i = map (\<lambda>k. res ! k) [i - w..<i]"

definition spec_sample_variance :: "real list \<Rightarrow> real" where
  "spec_sample_variance xs =
     (let mean = sum_list xs / real (length xs)
      in (\<Sum>x\<leftarrow>xs. (x - mean)\<^sup>2) / (real (length xs) - 1))"

section \<open>The LPPL model\<close>

subsection \<open>Parts shared by the library and the API handler\<close>

definition lpplFunction ::
  "real \<Rightarrow> real \<Rightarrow> real \<Rightarrow> real \<Rightarrow> real \<Rightarrow> real \<Rightarrow> real \<Rightarrow> real \<Rightarrow> real" where
  "lpplFunction t tc a b c m omega phi =
     (let dt = tc - t
      in if dt \<le> 0 then a
         else let dtm = dt powr m
              in a + b * dtm + c * dtm * cos (omega * ln dt + phi))"

type_synonym row = "real \<times> real \<times> real"

text \<open>\<open>X[k][i]\<close> for a row \<open>X[k]\<close> of three numbers.\<close>

fun col :: "nat \<Rightarrow> row \<Rightarrow> real" where
  "col 0 (x0, x1, x2) = x0"
| "col (Suc 0) (x0, x1, x2) = x1"
| "col (Suc (Suc i)) (x0, x1, x2) = x2"

text \<open>
  The loop that builds the design matrix: it runs over the time indices and breaks
  with \<open>valid = false\<close> (here \<open>None\<close>) at the first \<open>dt \<le> 0\<close>.  It pushes
  \<open>logPrices[i]\<close> to \<open>y\<close> at every step, so that \<open>y\<close> is \<open>logPrices\<close> when it completes.
\<close>

fun designRows :: "real \<Rightarrow> real \<Rightarrow> real \<Rightarrow> real \<Rightarrow> real list \<Rightarrow> row list option" where
  "designRows tc m omega phi [] = Some []"
| "designRows tc m omega phi (ti # ts) =
     (let dt = tc - ti
      in if dt \<le> 0 then None
         else let dtm = dt powr m;
                  cosVal = cos (omega * ln dt + phi)
              in map_option ((#) (1, dtm, dtm * cosVal)) (designRows tc m omega phi ts))"

definition XtX :: "row list \<Rightarrow> nat \<Rightarrow> nat \<Rightarrow> real" where
  "XtX X i j = foldl (\<lambda>s k. s + col i (X ! k) * col j (X ! k)) 0 [0..<length X]"

definition Xty :: "row list \<Rightarrow> real list \<Rightarrow> nat \<Rightarrow> real" where
  "Xty X y i = foldl (\<lambda>s k. s + col i (X ! k) * y ! k) 0 [0..<length X]"

definition det3 :: "(nat \<Rightarrow> nat \<Rightarrow> real) \<Rightarrow> real" where
  "det3 M = M 0 0 * (M 1 1 * M 2 2 - M 1 2 * M 2 1)
          - M 0 1 * (M 1 0 * M 2 2 - M 1 2 * M 2 0)
          + M 0 2 * (M 1 0 * M 2 1 - M 1 1 * M 2 0)"

definition rSquared :: "real list \<Rightarrow> real list \<Rightarrow> nat \<Rightarrow> real" where
  "rSquared logPrices predicted n =
     (let ssRes = foldl (\<lambda>sum i. sum + (logPrices ! i - predicted ! i)\<^sup>2) 0
                        [0..<length logPrices];
          meanY = foldl (+) 0 logPrices / real n;
          ssTot = foldl (\<lambda>sum yi. sum + (yi - meanY)\<^sup>2) 0 logPrices
      in if ssTot > 0 then 1 - ssRes / ssTot else 0)"

record lppl_fit =
  fit_tc :: nat
  fit_A :: real
  fit_B :: real
  fit_C :: real
  fit_m :: real
  fit_omega :: real
  fit_phi :: real
  fit_r2 :: real

text \<open>
  The running best of the grid search: \<open>bestFit\<close> (\<open>null\<close> is \<open>None\<close>) and \<open>bestR2\<close>,
  which starts at \<open>-Infinity\<close> (\<open>None\<close>).
\<close>

type_synonym best = "lppl_fit option \<times> real option"

definition keep_best :: "best \<Rightarrow> lppl_fit \<Rightarrow> best" where
  "keep_best s f =
     (case s of (bestFit, bestR2) \<Rightarrow>
        if (case bestR2 of None \<Rightarrow> True | Some b \<Rightarrow> fit_r2 f > b) \<and> fit_r2 f > 0.75
        then (Some f, Some (fit_r2 f)) else (bestFit, bestR2))"

text \<open>The four nested \<open>for ... of\<close> loops over the candidate grids.\<close>

definition grid_loops ::
  "(nat \<Rightarrow> real \<Rightarrow> real \<Rightarrow> real \<Rightarrow> lppl_fit option) \<Rightarrow>
   nat list \<Rightarrow> real list \<Rightarrow> real list \<Rightarrow> real list \<Rightarrow> best" where
  "grid_loops candidate tcs ms omegas phis =
     foldl (\<lambda>s tc. foldl (\<lambda>s m. foldl (\<lambda>s omega. foldl (\<lambda>s phi.
              (case candidate tc m omega phi of None \<Rightarrow> s | Some f \<Rightarrow> keep_best s f))
            s phis) s omegas) s ms) (None, None) tcs"

datatype 'a field = Absent | Null | Present 'a

record lppl_result =
  isBubble :: bool
  confidence :: real
  r2 :: real
  tcDays :: "int field"
  params :: "lppl_fit option"

text \<open>What \<open>optimize\<close> returns after the grid search, for a series of \<open>n\<close> points.\<close>

definition conclude :: "nat \<Rightarrow> lppl_fit option \<Rightarrow> lppl_result" where
  "conclude n bestFit =
     (case bestFit of
        None \<Rightarrow> \<lparr>isBubble = False, confidence = 0, r2 = 0, tcDays = Null, params = None\<rparr>
      | Some f \<Rightarrow>
          if fit_r2 f < 0.75
          then \<lparr>isBubble = False, confidence = 0, r2 = fit_r2 f, tcDays = Null, params = None\<rparr>
          else let conf = min 1 (max 0 ((fit_r2 f - 0.75) / 0.2));
                   days = js_round (real (fit_tc f) - real n + 1)
               in \<lparr>isBubble = (conf > 0.3 \<and> days > 5 \<and> days < 200), confidence = conf,
                   r2 = fit_r2 f, tcDays = Present days, params = Some f\<rparr>)"

definition too_short :: lppl_result where
  "too_short = \<lparr>isBubble = False, confidence = 0, r2 = 0, tcDays = Absent, params = None\<rparr>"

subsection \<open>The library (\<open>lib/lppl-model.js\<close>)\<close>

definition solve3x3 :: "(nat \<Rightarrow> nat \<Rightarrow> real) \<Rightarrow> (nat \<Rightarrow> real) \<Rightarrow> row option" where
  "solve3x3 M b =
     (let det = det3 M
      in if \<bar>det\<bar> < 1 / 10 ^ 10 then None
         else let invDet = 1 / det;
                  inv00 = (M 1 1 * M 2 2 - M 1 2 * M 2 1) * invDet;
                  inv01 = (M 0 2 * M 2 1 - M 0 1 * M 2 2) * invDet;
                  inv02 = (M 0 1 * M 1 2 - M 0 2 * M 1 1) * invDet;
                  inv10 = (M 1 2 * M 2 0 - M 1 0 * M 2 2) * invDet;
                  inv11 = (M 0 0 * M 2 2 - M 0 2 * M 2 0) * invDet;
                  inv12 = (M 0 2 * M 1 0 - M 0 0 * M 1 2) * invDet;
                  inv20 = (M 1 0 * M 2 1 - M 1 1 * M 2 0) * invDet;
                  inv21 = (M 0 1 * M 2 0 - M 0 0 * M 2 1) * invDet;
                  inv22 = (M 0 0 * M 1 1 - M 0 1 * M 1 0) * invDet
              in Some (inv00 * b 0 + inv01 * b 1 + inv02 * b 2,
                       inv10 * b 0 + inv11 * b 1 + inv12 * b 2,
                       inv20 * b 0 + inv21 * b 1 + inv22 * b 2))"

text \<open>
  \<open>linearRegression\<close> reads the number of columns from \<open>X[0]\<close>; it is called with the
  design matrix of at least 100 rows of three numbers only.
\<close>

definition linearRegression :: "row list \<Rightarrow> real list \<Rightarrow> row option" where
  "linearRegression X y = solve3x3 (XtX X) (Xty X y)"

function tcLoop :: "nat \<Rightarrow> nat \<Rightarrow> nat list" where
  "tcLoop tc limit = (if tc \<le> limit then tc # tcLoop (tc + 10) limit else [])"
  by pat_completeness auto
termination
  by (relation "measure (\<lambda>(tc, limit). limit + 1 - tc)") auto

definition tcRange :: "nat \<Rightarrow> nat list" where
  "tcRange n = tcLoop (n + 5) (n + 200)"

definition mRange :: "real list" where
  "mRange = [0.15, 0.2, 0.25, 0.33, 0.4, 0.5, 0.6, 0.7, 0.8]"

definition omegaRange :: "real list" where
  "omegaRange = [5, 6, 7, 8, 9, 10, 11, 12, 13]"

definition phiRange :: "real list" where
  "phiRange = [0, pi / 4, pi / 2, 3 * pi / 4, pi, 5 * pi / 4, 3 * pi / 2, 7 * pi / 4]"

text \<open>The body of the innermost loop; \<open>None\<close> is a \<open>continue\<close>.\<close>

definition fitCandidate ::
  "real list \<Rightarrow> nat \<Rightarrow> nat \<Rightarrow> real \<Rightarrow> real \<Rightarrow> real \<Rightarrow> lppl_fit option" where
  "fitCandidate logPrices n tc m omega phi =
     (let t = map real [0..<n]
      in case designRows (real tc) m omega phi t of
           None \<Rightarrow> None
         | Some X \<Rightarrow>
            (case linearRegression X logPrices of
               None \<Rightarrow> None
             | Some (a, b, c) \<Rightarrow>
                 if b \<ge> 0 then None
                 else if \<bar>c\<bar> > \<bar>b\<bar> then None
                 else if m < 0.1 \<or> m > 0.9 then None
                 else if omega < 5 \<or> omega > 15 then None
                 else let predicted = map (\<lambda>ti. lpplFunction ti (real tc) a b c m omega phi) t;
                          r = rSquared logPrices predicted n
                      in Some \<lparr>fit_tc = tc, fit_A = a, fit_B = b, fit_C = c, fit_m = m,
                                fit_omega = omega, fit_phi = phi, fit_r2 = r\<rparr>))"

definition gridSearch :: "real list \<Rightarrow> nat \<Rightarrow> best" where
  "gridSearch logPrices n =
     grid_loops (fitCandidate logPrices n) (tcRange n) mRange omegaRange phiRange"

definition optimize :: "real list \<Rightarrow> string list \<Rightarrow> lppl_result" where
  "optimize prices dates =
     (let n = length prices
      in if n < 100 then too_short
         else let logPrices = map ln prices
              in conclude n (fst (gridSearch logPrices n)))"

definition optimizeLPPL :: "real list \<Rightarrow> string list \<Rightarrow> lppl_result" where
  "optimizeLPPL prices dates = optimize prices dates"

subsection \<open>The copy inside the handler of the \<open>/api/analyze\<close> route\<close>

definition solveOLS :: "row list \<Rightarrow> real list \<Rightarrow> row option" where
  "solveOLS X y =
     (let M = XtX X;
          b = Xty X y;
          det = M 0 0 * (M 1 1 * M 2 2 - M 1 2 * M 2 1)
              - M 0 1 * (M 1 0 * M 2 2 - M 1 2 * M 2 0)
              + M 0 2 * (M 1 0 * M 2 1 - M 1 1 * M 2 0)
      in if \<bar>det\<bar> < 1 / 10 ^ 10 then None
         else let inv = 1 / det;
                  adj00 = (M 1 1 * M 2 2 - M 1 2 * M 2 1) * inv;
                  adj01 = (M 0 2 * M 2 1 - M 0 1 * M 2 2) * inv;
                  adj02 = (M 0 1 * M 1 2 - M 0 2 * M 1 1) * inv;
                  adj10 = (M 1 2 * M 2 0 - M 1 0 * M 2 2) * inv;
                  adj11 = (M 0 0 * M 2 2 - M 0 2 * M 2 0) * inv;
                  adj12 = (M 0 2 * M 1 0 - M 0 0 * M 1 2) * inv;
                  adj20 = (M 1 0 * M 2 1 - M 1 1 * M 2 0) * inv;
                  adj21 = (M 0 1 * M 2 0 - M 0 0 * M 2 1) * inv;
                  adj22 = (M 0 0 * M 1 1 - M 0 1 * M 1 0) * inv
              in Some (adj00 * b 0 + adj01 * b 1 + adj02 * b 2,
                       adj10 * b 0 + adj11 * b 1 + adj12 * b 2,
                       adj20 * b 0 + adj21 * b 1 + adj22 * b 2))"

function handler_tcLoop :: "nat \<Rightarrow> nat \<Rightarrow> nat list" where
  "handler_tcLoop tc limit = (if tc \<le> limit then tc # handler_tcLoop (tc + 15) limit else [])"
  by pat_completeness auto
termination
  by (relation "measure (\<lambda>(tc, limit). limit + 1 - tc)") auto

definition handler_fitCandidate ::
  "real list \<Rightarrow> nat \<Rightarrow> nat \<Rightarrow> real \<Rightarrow> real \<Rightarrow> real \<Rightarrow> lppl_fit option" where
  "handler_fitCandidate logPrices rn tc m omega phi =
     (let t = map real [0..<rn]
      in case designRows (real tc) m omega phi t of
           None \<Rightarrow> None
         | Some X \<Rightarrow>
            (case solveOLS X logPrices of
               None \<Rightarrow> None
             | Some (a, b, c) \<Rightarrow>
                 if b \<ge> 0 \<or> \<bar>c\<bar> > \<bar>b\<bar> then None
                 else let predicted = map (\<lambda>ti. lpplFunction ti (real tc) a b c m omega phi) t;
                          r = rSquared logPrices predicted rn
                      in Some \<lparr>fit_tc = tc, fit_A = a, fit_B = b, fit_C = c, fit_m = m,
                                fit_omega = omega, fit_phi = phi, fit_r2 = r\<rparr>))"

definition handler_gridSearch :: "real list \<Rightarrow> nat \<Rightarrow> best" where
  "handler_gridSearch logPrices rn =
     grid_loops (handler_fitCandidate logPrices rn) (handler_tcLoop (rn + 5) (rn + 200))
       [0.2, 0.33, 0.5, 0.67, 0.8] [6, 8, 10, 12] [0, pi / 2, pi, 3 * pi / 2]"

definition handler_optimize :: "real list \<Rightarrow> lppl_result" where
  "handler_optimize prices =
     (let n = length prices
      in if n < 100 then too_short
         else let recentPrices = js_slice_from prices (- 500);
                  rn = length recentPrices;
                  logPrices = map ln recentPrices
              in conclude rn (fst (handler_gridSearch logPrices rn)))"

section \<open>The statistical engine in double precision\<close>

text \<open>
  Whether an entry of \<open>rollingAR1\<close> or of the trend stays inside an interval depends on
  rounding and on overflow, which the real-valued reading leaves out.  The two functions
  \<open>detrend\<close> and \<open>rollingAR1\<close> are therefore embedded a second time, over IEEE 754
  binary64 numbers, operation by operation and in the order in which the source
  evaluates them.

  A double is a finite real, one of the two infinities, or \<open>NaN\<close>.  The result of an
  operation on finite numbers is the exact result rounded to the nearest double, ties to
  the even significand, with gradual underflow below \<open>2 ^ (- 1022)\<close> and overflow to an
  infinity from \<open>2 ^ 1024\<close> on.  Zero carries no sign here.  In JavaScript the sign
  of a zero shows only when something is divided by it, and in the two functions a
  divisor can be \<open>-0\<close> only when the argument \<open>bandwidth\<close> or \<open>windowSize\<close> itself is
  \<open>-0\<close>; a zero divisor is taken to be \<open>+0\<close>.
\<close>

datatype double = Fin real | PInf | NInf | NaN

text \<open>The power \<open>2 ^ e\<close> for an integer exponent \<open>e\<close>.\<close>

definition pow2 :: "int \<Rightarrow> real" where
  "pow2 e = (if 0 \<le> e then 2 ^ nat e else 1 / 2 ^ nat (- e))"

text \<open>The exponent \<open>e\<close> with \<open>2 ^ e \<le> \<bar>x\<bar> < 2 ^ (e + 1)\<close>.\<close>

definition binade :: "real \<Rightarrow> int" where
  "binade x = \<lfloor>log 2 \<bar>x\<bar>\<rfloor>"

text \<open>Rounding to the nearest integer, halves to the even neighbour.\<close>

definition rne :: "real \<Rightarrow> int" where
  "rne x = (let f = \<lfloor>x\<rfloor>; r = x - of_int f
            in if r < 1 / 2 then f else if 1 / 2 < r then f + 1
               else if even f then f else f + 1)"

text \<open>
  Rounding to 53 significant bits: the spacing of the doubles around \<open>x\<close> is
  \<open>2 ^ (e - 52)\<close> for the exponent \<open>e\<close> of \<open>x\<close>, and \<open>2 ^ (- 1074)\<close> in the subnormal range.
\<close>

definition round53 :: "real \<Rightarrow> real" where
  "round53 x = (if x = 0 then 0
                else let q = pow2 (max (binade x) (- 1022) - 52)
                     in of_int (rne (x / q)) * q)"

definition fl :: "real \<Rightarrow> double" where
  "fl x = (let y = round53 x
           in if 2 ^ 1024 \<le> y then PInf else if y \<le> - (2 ^ 1024) then NInf else Fin y)"

subsection \<open>The operators and \<open>Math\<close> functions that the two functions use\<close>

fun d_neg :: "double \<Rightarrow> double" where
  "d_neg (Fin x) = Fin (- x)"
| "d_neg PInf = NInf"
| "d_neg NInf = PInf"
| "d_neg NaN = NaN"

fun d_add :: "double \<Rightarrow> double \<Rightarrow> double" where
  "d_add (Fin x) (Fin y) = fl (x + y)"
| "d_add NaN b = NaN"
| "d_add a NaN = NaN"
| "d_add PInf NInf = NaN"
| "d_add NInf PInf = NaN"
| "d_add PInf b = PInf"
| "d_add NInf b = NInf"
| "d_add (Fin x) b = b"

definition d_sub :: "double \<Rightarrow> double \<Rightarrow> double" where
  "d_sub a b = d_add a (d_neg b)"

fun d_mul :: "double \<Rightarrow> double \<Rightarrow> double" where
  "d_mul (Fin x) (Fin y) = fl (x * y)"
| "d_mul NaN b = NaN"
| "d_mul a NaN = NaN"
| "d_mul PInf (Fin y) = (if y = 0 then NaN else if 0 < y then PInf else NInf)"
| "d_mul NInf (Fin y) = (if y = 0 then NaN else if 0 < y then NInf else PInf)"
| "d_mul (Fin x) PInf = (if x = 0 then NaN else if 0 < x then PInf else NInf)"
| "d_mul (Fin x) NInf = (if x = 0 then NaN else if 0 < x then NInf else PInf)"
| "d_mul PInf PInf = PInf"
| "d_mul NInf NInf = PInf"
| "d_mul PInf NInf = NInf"
| "d_mul NInf PInf = NInf"

fun d_div :: "double \<Rightarrow> double \<Rightarrow> double" where
  "d_div (Fin x) (Fin y) =
     (if y = 0 then (if x = 0 then NaN else if 0 < x then PInf else NInf) else fl (x / y))"
| "d_div NaN b = NaN"
| "d_div a NaN = NaN"
| "d_div (Fin x) b = Fin 0"
| "d_div PInf (Fin y) = (if 0 \<le> y then PInf else NInf)"
| "d_div NInf (Fin y) = (if 0 \<le> y then NInf else PInf)"
| "d_div a b = NaN"

text \<open>\<open>Math.sqrt\<close> is correctly rounded in IEEE 754.\<close>

fun d_sqrt :: "double \<Rightarrow> double" where
  "d_sqrt (Fin x) = (if x < 0 then NaN else fl (sqrt x))"
| "d_sqrt PInf = PInf"
| "d_sqrt a = NaN"



text \<open>The comparison \<open>a < b\<close>, false as soon as one side is \<open>NaN\<close>.\<close>

fun d_less :: "double \<Rightarrow> double \<Rightarrow> bool" where
  "d_less (Fin x) (Fin y) = (x < y)"
| "d_less NaN b = False"
| "d_less a NaN = False"
| "d_less a NInf = False"
| "d_less PInf b = False"
| "d_less a b = True"

text \<open>\<open>Math.min\<close> and \<open>Math.max\<close> return \<open>NaN\<close> as soon as one argument is \<open>NaN\<close>.\<close>

fun d_min :: "double \<Rightarrow> double \<Rightarrow> double" where
  "d_min NaN b = NaN"
| "d_min a NaN = NaN"
| "d_min a b = (if d_less b a then b else a)"

fun d_max :: "double \<Rightarrow> double \<Rightarrow> double" where
  "d_max NaN b = NaN"
| "d_max a NaN = NaN"
| "d_max a b = (if d_less a b then b else a)"


subsection \<open>Detrending\<close>





subsection \<open>Rolling AR(1)\<close>

definition dbl_ar1_windows :: "double list \<Rightarrow> int \<Rightarrow> nat \<Rightarrow> double list \<times> double list" where
  "dbl_ar1_windows res windowSize i =
     (map (\<lambda>j. res ! nat (int i - windowSize + int j)) [0..<nat windowSize],
      map (\<lambda>j. res ! nat (int i - windowSize + int j - 1)) [0..<nat windowSize])"

definition dbl_correlation_sums ::
  "double list \<Rightarrow> double list \<Rightarrow> double \<Rightarrow> double \<Rightarrow> int \<Rightarrow> double \<times> double \<times> double" where
  "dbl_correlation_sums currentWindow lagWindow meanCurrent meanLag windowSize =
     foldl (\<lambda>(cov, varCurrent, varLag) j.
              let dCurrent = d_sub (currentWindow ! j) meanCurrent;
                  dLag = d_sub (lagWindow ! j) meanLag
              in (d_add cov (d_mul dCurrent dLag), d_add varCurrent (d_mul dCurrent dCurrent),
                  d_add varLag (d_mul dLag dLag)))
           (Fin 0, Fin 0, Fin 0) [0..<nat windowSize]"

definition dbl_ar1_sums :: "double list \<Rightarrow> int \<Rightarrow> nat \<Rightarrow> double \<times> double \<times> double" where
  "dbl_ar1_sums res windowSize i =
     (case dbl_ar1_windows res windowSize i of (currentWindow, lagWindow) \<Rightarrow>
        let meanCurrent = d_div (foldl d_add (Fin 0) currentWindow) (Fin (real_of_int windowSize));
            meanLag = d_div (foldl d_add (Fin 0) lagWindow) (Fin (real_of_int windowSize))
        in dbl_correlation_sums currentWindow lagWindow meanCurrent meanLag windowSize)"

definition dbl_ar1_at :: "double list \<Rightarrow> int \<Rightarrow> nat \<Rightarrow> double" where
  "dbl_ar1_at res windowSize i =
     (case dbl_ar1_sums res windowSize i of (cov, varCurrent, varLag) \<Rightarrow>
        let correlation = (if d_less (Fin 0) varCurrent \<and> d_less (Fin 0) varLag
                           then d_div cov (d_sqrt (d_mul varCurrent varLag)) else Fin 0)
        in d_max (Fin (- 1)) (d_min (Fin 1) correlation))"

definition dbl_rollingAR1 :: "double list \<Rightarrow> int \<Rightarrow> double option list" where
  "dbl_rollingAR1 res windowSize =
     map (\<lambda>i. if int i < windowSize + 1 then None else Some (dbl_ar1_at res windowSize i))
         [0..<length res]"

section \<open>Notions used in the proofs\<close>

text \<open>The grid points in the order in which the four nested loops visit them.\<close>

definition grid_points ::
  "nat list \<Rightarrow> real list \<Rightarrow> real list \<Rightarrow> real list \<Rightarrow> (nat \<times> real \<times> real \<times> real) list" where
  "grid_points tcs ms omegas phis =
     concat (map (\<lambda>tc. concat (map (\<lambda>m. concat (map (\<lambda>omega.
       map (\<lambda>phi. (tc, m, omega, phi)) phis) omegas)) ms)) tcs)"

text \<open>The body of the innermost loop as a step on the running best.\<close>

definition grid_step ::
  "(nat \<Rightarrow> real \<Rightarrow> real \<Rightarrow> real \<Rightarrow> lppl_fit option) \<Rightarrow> best \<Rightarrow> nat \<times> real \<times> real \<times> real \<Rightarrow> best" where
  "grid_step candidate s p =
     (case p of (tc, m, omega, phi) \<Rightarrow>
        (case candidate tc m omega phi of None \<Rightarrow> s | Some f \<Rightarrow> keep_best s f))"

text \<open>The running best is either empty or holds an accepted candidate of the grid.\<close>

definition best_ok ::
  "(nat \<Rightarrow> real \<Rightarrow> real \<Rightarrow> real \<Rightarrow> lppl_fit option) \<Rightarrow> (nat \<times> real \<times> real \<times> real) set \<Rightarrow> best \<Rightarrow> bool" where
  "best_ok candidate ps s =
     (case s of
        (None, br) \<Rightarrow> br = None
      | (Some f, br) \<Rightarrow> br = Some (fit_r2 f) \<and> fit_r2 f > 0.75 \<and>
          (\<exists>(tc, m, omega, phi)\<in>ps. candidate tc m omega phi = Some f))"

text \<open>
  The matrix \<open>X\<^sup>T X\<close> of the rows \<open>r k\<close> with \<open>k\<close> in a set, the matrix \<open>x x\<^sup>T\<close> of one row,
  the quadratic forms of a matrix and of its adjugate, the cross product of two rows and
  the determinant of three rows.
\<close>

definition gram :: "(nat \<Rightarrow> row) \<Rightarrow> nat set \<Rightarrow> nat \<Rightarrow> nat \<Rightarrow> real" where
  "gram r S i j = (\<Sum>k\<in>S. col i (r k) * col j (r k))"

definition outer :: "row \<Rightarrow> nat \<Rightarrow> nat \<Rightarrow> real" where
  "outer x i j = col i x * col j x"

definition qf :: "(nat \<Rightarrow> nat \<Rightarrow> real) \<Rightarrow> row \<Rightarrow> real" where
  "qf M c = (case c of (c0, c1, c2) \<Rightarrow>
     c0 * (M 0 0 * c0 + M 0 1 * c1 + M 0 2 * c2) +
     c1 * (M 1 0 * c0 + M 1 1 * c1 + M 1 2 * c2) +
     c2 * (M 2 0 * c0 + M 2 1 * c1 + M 2 2 * c2))"

definition adjugate :: "(nat \<Rightarrow> nat \<Rightarrow> real) \<Rightarrow> nat \<Rightarrow> nat \<Rightarrow> real" where
  "adjugate M i j =
     (if i = 0 then (if j = 0 then M 1 1 * M 2 2 - M 1 2 * M 2 1
                     else if j = 1 then M 0 2 * M 2 1 - M 0 1 * M 2 2
                     else M 0 1 * M 1 2 - M 0 2 * M 1 1)
      else if i = 1 then (if j = 0 then M 1 2 * M 2 0 - M 1 0 * M 2 2
                     else if j = 1 then M 0 0 * M 2 2 - M 0 2 * M 2 0
                     else M 0 2 * M 1 0 - M 0 0 * M 1 2)
      else (if j = 0 then M 1 0 * M 2 1 - M 1 1 * M 2 0
            else if j = 1 then M 0 1 * M 2 0 - M 0 0 * M 2 1
            else M 0 0 * M 1 1 - M 0 1 * M 1 0))"

definition cross :: "row \<Rightarrow> row \<Rightarrow> row" where
  "cross x y = (case x of (x0, x1, x2) \<Rightarrow> case y of (y0, y1, y2) \<Rightarrow>
     (x1 * y2 - x2 * y1, x2 * y0 - x0 * y2, x0 * y1 - x1 * y0))"

definition minor3 :: "row \<Rightarrow> row \<Rightarrow> row \<Rightarrow> real" where
  "minor3 x y z = (case x of (x0, x1, x2) \<Rightarrow> case y of (y0, y1, y2) \<Rightarrow>
     case z of (z0, z1, z2) \<Rightarrow>
       x0 * (y1 * z2 - y2 * z1) - x1 * (y0 * z2 - y2 * z0) + x2 * (y0 * z1 - y1 * z0))"

text \<open>One row of the design matrix.\<close>

definition designRow :: "real \<Rightarrow> real \<Rightarrow> real \<Rightarrow> real \<Rightarrow> real \<Rightarrow> row" where
  "designRow tc m omega phi ti =
     (1, (tc - ti) powr m, (tc - ti) powr m * cos (omega * ln (tc - ti) + phi))"

text \<open>
  A series of \<open>n\<close> prices that lies on the LPPL curve with critical time \<open>n + 5\<close>,
  exponent \<open>1/2\<close> and coefficients \<open>A = 0\<close>, \<open>B = -1\<close>, \<open>C = 0\<close>:
  \<open>ln (price i) = - sqrt (n + 5 - i)\<close>.
\<close>

definition lppl_series :: "nat \<Rightarrow> real list" where
  "lppl_series n = map (\<lambda>i. exp (- sqrt (real (n + 5 - i)))) [0..<n]"

text \<open>The design matrix of that series for \<open>tc = n + 5\<close>, \<open>m = 1/2\<close> and \<open>omega = 8\<close>.\<close>

definition series_rows :: "nat \<Rightarrow> real \<Rightarrow> row list" where
  "series_rows n phi = map (\<lambda>i. designRow (real (n + 5)) (1 / 2) 8 phi (real i)) [0..<n]"

text \<open>The fit that recovers the curve of \<open>lppl_series\<close> exactly.\<close>

definition series_fit :: "nat \<Rightarrow> real \<Rightarrow> lppl_fit" where
  "series_fit n phi = \<lparr>fit_tc = n + 5, fit_A = 0, fit_B = - 1, fit_C = 0, fit_m = 1 / 2,
     fit_omega = 8, fit_phi = phi, fit_r2 = 1\<rparr>"

text \<open>\<open>clamp(x, lo, hi)\<close> as the specification uses it.\<close>

definition spec_clamp :: "real \<Rightarrow> real \<Rightarrow> real \<Rightarrow> real" where
  "spec_clamp x lo hi = max lo (min hi x)"




section \<open>Properties of the statistical engine\<close>

subsection \<open>Sums computed by \<open>reduce\<close> and by accumulating loops\<close>

lemma foldl_add_sum: "foldl (\<lambda>s x. s + f x) a xs = a + (\<Sum>x\<leftarrow>xs. f x)" for a :: real
  by (induction xs arbitrary: a) (simp_all add: add.assoc)

lemma foldl_plus_sum_list: "foldl (+) a xs = a + sum_list xs" for a :: real
  using foldl_add_sum [of "\<lambda>x. x" a xs] by simp

subsection \<open>Rolling AR(1) in exact arithmetic\<close>

lemma length_rollingAR1: "length (rollingAR1 res w) = length res"
  by (simp add: rollingAR1_def)

lemma length_rollingVariance: "length (rollingVariance res w) = length res"
  by (simp add: rollingVariance_def)

lemma ar1_at_range: "- 1 \<le> ar1_at res w i \<and> ar1_at res w i \<le> 1"
  by (simp add: ar1_at_def Let_def split: prod.splits)

lemma ar1_at_zero_variance:
  "ar1_sums res w i = (cov, varCurrent, varLag) \<Longrightarrow> varCurrent \<le> 0 \<or> varLag \<le> 0
     \<Longrightarrow> ar1_at res w i = 0"
  by (auto simp add: ar1_at_def Let_def)

lemma correlation_fold:
  "foldl (\<lambda>(cov, varCurrent, varLag) j.
            let dCurrent = f j; dLag = g j
            in (cov + dCurrent * dLag, varCurrent + dCurrent * dCurrent, varLag + dLag * dLag))
         (a, b, c) js =
   (a + (\<Sum>j\<leftarrow>js. f j * g j), b + (\<Sum>j\<leftarrow>js. f j * f j), c + (\<Sum>j\<leftarrow>js. g j * g j))"
  for a b c :: real
  by (induction js arbitrary: a b c) (simp_all add: Let_def add.assoc)

lemma correlation_sums_eq:
  "correlation_sums cur lag mc ml w =
     ((\<Sum>j\<leftarrow>[0..<nat w]. (cur ! j - mc) * (lag ! j - ml)),
      (\<Sum>j\<leftarrow>[0..<nat w]. (cur ! j - mc) * (cur ! j - mc)),
      (\<Sum>j\<leftarrow>[0..<nat w]. (lag ! j - ml) * (lag ! j - ml)))"
  unfolding correlation_sums_def
  using correlation_fold [of "\<lambda>j. cur ! j - mc" "\<lambda>j. lag ! j - ml" 0 0 0 "[0..<nat w]"]
  by simp

lemma constant_window_mean:
  assumes "0 < w" and "length xs = nat w" and "\<forall>x\<in>set xs. x = c"
  shows "foldl (+) 0 xs / real_of_int w = c"
proof -
  have "xs = replicate (nat w) c"
    using assms(2,3) by (metis replicate_length_same)
  then have "sum_list xs = real (nat w) * c"
    by (metis sum_list_replicate mult.commute)
  then show ?thesis using assms(1) by (simp add: foldl_plus_sum_list)
qed

lemma constant_window_deviation:
  assumes "0 < w" and "length xs = nat w" and "\<forall>x\<in>set xs. x = c"
  shows "(\<Sum>j\<leftarrow>[0..<nat w]. (xs ! j - foldl (+) 0 xs / real_of_int w) *
                           (xs ! j - foldl (+) 0 xs / real_of_int w)) = 0"
proof -
  have "xs ! j - foldl (+) 0 xs / real_of_int w = 0" if "j < nat w" for j
    using that assms by (simp add: constant_window_mean [OF assms])
  then have "map (\<lambda>j. (xs ! j - foldl (+) 0 xs / real_of_int w) *
                       (xs ! j - foldl (+) 0 xs / real_of_int w)) [0..<nat w]
             = map (\<lambda>j. 0) [0..<nat w]"
    by (intro map_cong) simp_all
  then show ?thesis by (simp only:) simp
qed

lemma ar1_sums_constant:
  assumes "0 < w"
  shows "(\<forall>j<nat w. res ! nat (int i - w + int j) = c) \<Longrightarrow>
           fst (snd (ar1_sums res w i)) = 0"
    and "(\<forall>j<nat w. res ! nat (int i - w + int j - 1) = c) \<Longrightarrow>
           snd (snd (ar1_sums res w i)) = 0"
proof -
  let ?cur = "map (\<lambda>j. res ! nat (int i - w + int j)) [0..<nat w]"
  let ?lag = "map (\<lambda>j. res ! nat (int i - w + int j - 1)) [0..<nat w]"
  show "fst (snd (ar1_sums res w i)) = 0" if "\<forall>j<nat w. res ! nat (int i - w + int j) = c"
  proof -
    have "\<forall>x\<in>set ?cur. x = c" using that by auto
    from constant_window_deviation [OF assms _ this]
    show ?thesis
      by (simp add: ar1_sums_def ar1_windows_def Let_def correlation_sums_eq)
  qed
  show "snd (snd (ar1_sums res w i)) = 0" if "\<forall>j<nat w. res ! nat (int i - w + int j - 1) = c"
  proof -
    have "\<forall>x\<in>set ?lag. x = c" using that by auto
    from constant_window_deviation [OF assms _ this]
    show ?thesis
      by (simp add: ar1_sums_def ar1_windows_def Let_def correlation_sums_eq)
  qed
qed

text \<open>
  Over the reals, for a positive window size, every entry of the \<open>rollingAR1\<close> output
  that is not \<open>null\<close> lies in \<open>[-1, 1]\<close>, and it is \<open>0\<close> when the sum of squared
  deviations of the current window or of the lag window is zero (in particular on a
  constant window).  This is what the guard and the clamp of the source achieve when
  nothing is rounded and nothing overflows; the doubles behave differently, see below.
\<close>

lemma rollingAR1_exact_unit_interval:
  assumes "0 < windowSize" and "i < length res" and "rollingAR1 res windowSize ! i = Some v"
  shows "- 1 \<le> v \<and> v \<le> 1 \<and>
         (\<forall>cov varCurrent varLag. ar1_sums res windowSize i = (cov, varCurrent, varLag) \<longrightarrow>
            varCurrent = 0 \<or> varLag = 0 \<longrightarrow> v = 0) \<and>
         (\<forall>c. (\<forall>j<nat windowSize. res ! nat (int i - windowSize + int j) = c) \<or>
              (\<forall>j<nat windowSize. res ! nat (int i - windowSize + int j - 1) = c) \<longrightarrow> v = 0)"
proof -
  from assms(2,3) have v: "v = ar1_at res windowSize i"
    by (simp add: rollingAR1_def split: if_splits)
  have z: "v = 0" if "ar1_sums res windowSize i = (cov, varCurrent, varLag)"
    "varCurrent = 0 \<or> varLag = 0" for cov varCurrent varLag
    unfolding v using ar1_at_zero_variance [OF that(1)] that(2) by auto
  have "v = 0" if "(\<forall>j<nat windowSize. res ! nat (int i - windowSize + int j) = c) \<or>
              (\<forall>j<nat windowSize. res ! nat (int i - windowSize + int j - 1) = c)" for c
  proof -
    obtain cov varCurrent varLag where s: "ar1_sums res windowSize i = (cov, varCurrent, varLag)"
      by (cases "ar1_sums res windowSize i") auto
    have "varCurrent = 0 \<or> varLag = 0"
      using that ar1_sums_constant [OF assms(1), of res i c] by (auto simp: s)
    with s show ?thesis by (rule z)
  qed
  with z show ?thesis
    unfolding v using ar1_at_range [of res windowSize i] by blast
qed

subsection \<open>Alignment of the rolling series and the sample variance\<close>

lemma js_slice_window:
  assumes "0 < w" "w \<le> int i" "i < length res"
  shows "js_slice res (int i - w) (int i) = spec_trailing_window res (nat w) i"
proof -
  have "take (nat w) (drop (i - nat w) res) = map (\<lambda>k. res ! k) [i - nat w..<i]"
  proof (rule nth_equalityI)
    show "length (take (nat w) (drop (i - nat w) res)) =
          length (map (\<lambda>k. res ! k) [i - nat w..<i])"
      using assms by simp
  next
    fix k assume "k < length (take (nat w) (drop (i - nat w) res))"
    then have k: "k < nat w" by simp
    then have "i - nat w + k < i" using assms by linarith
    then show "take (nat w) (drop (i - nat w) res) ! k = map (\<lambda>k. res ! k) [i - nat w..<i] ! k"
      using k assms by simp
  qed
  moreover have "nat (int i - w) = i - nat w" using assms by linarith
  ultimately show ?thesis
    using assms by (simp add: js_slice_def spec_trailing_window_def Let_def min_def)
qed

lemma length_spec_trailing_window: "w \<le> i \<Longrightarrow> length (spec_trailing_window res w i) = w"
  by (simp add: spec_trailing_window_def)

lemma variance_at_spec:
  assumes "0 < w" "w \<le> int i" "i < length res"
  shows "variance_at res w i = spec_sample_variance (spec_trailing_window res (nat w) i)"
proof -
  have len: "real (length (spec_trailing_window res (nat w) i)) = real_of_int w"
    using assms by (simp add: length_spec_trailing_window)
  show ?thesis
    unfolding variance_at_def spec_sample_variance_def Let_def js_slice_window [OF assms]
      foldl_plus_sum_list foldl_add_sum len by simp
qed

text \<open>
  C5.  For a positive window size both rolling series have the length of the input;
  \<open>rollingAR1[i]\<close> is \<open>null\<close> exactly when \<open>i < windowSize + 1\<close> and \<open>rollingVariance[i]\<close>
  exactly when \<open>i < windowSize\<close>; and a defined \<open>rollingVariance[i]\<close> is the sample
  variance, with denominator \<open>windowSize - 1\<close>, of the trailing window
  \<open>[i - windowSize, i)\<close>.  (For \<open>windowSize = 1\<close> that quotient has denominator zero on
  both sides of the equation.)
\<close>

theorem rolling_series_alignment:
  assumes "0 < windowSize"
  shows "length (rollingAR1 res windowSize) = length res \<and>
         length (rollingVariance res windowSize) = length res \<and>
         (\<forall>i<length res.
            (rollingAR1 res windowSize ! i = None \<longleftrightarrow> int i < windowSize + 1) \<and>
            (rollingVariance res windowSize ! i = None \<longleftrightarrow> int i < windowSize) \<and>
            (windowSize \<le> int i \<longrightarrow>
               rollingVariance res windowSize ! i =
                 Some (spec_sample_variance (spec_trailing_window res (nat windowSize) i))))"
  using assms by (simp add: rollingAR1_def rollingVariance_def variance_at_spec)

theorem rolling_series_alignment_witness:
  "(0::int) < 2 \<and> rollingAR1 [1, 1, 1, 1] 2 = [None, None, None, Some 0] \<and>
   rollingVariance [1, 2, 4, 3] 2 = [None, None, Some (1 / 2), Some 2] \<and>
   spec_sample_variance (spec_trailing_window [1, 2, 4, 3] (nat 2) 3) = 2"
  using rolling_series_alignment [of 2 "[1, 2, 4, 3]"]
  by (simp add: rollingAR1_def ar1_at_def ar1_sums_def ar1_windows_def correlation_sums_def
      rollingVariance_def variance_at_def js_slice_def spec_sample_variance_def
      spec_trailing_window_def upt_conv_Cons Let_def power2_eq_square)

subsection \<open>Kendall's tau on short series\<close>

lemma length_js_slice_from: "length (js_slice_from xs k) \<le> length xs"
  by (simp add: js_slice_from_def js_slice_def Let_def)

text \<open>
  C7.  When fewer than 10 entries of the AR(1) series are defined, \<open>kendallTau\<close>
  returns \<open>0\<close> for every lookback, whatever the values are.
\<close>

theorem kendallTau_few_points:
  fixes series :: "real option list"
  assumes "length (non_null series) < 10"
  shows "kendallTau series lookback = 0"
proof -
  have "length (js_slice_from (non_null series) (- lookback)) < 10"
    using assms length_js_slice_from [of "non_null series" "- lookback"] by linarith
  then show ?thesis by (simp add: kendallTau_def Let_def)
qed

theorem kendallTau_few_points_witness:
  "length (non_null [None, Some 1, Some (2::real), None]) < 10 \<and>
   kendallTau [None, Some 1, Some 2, None] 100 = 0"
  using kendallTau_few_points [of "[None, Some 1, Some 2, None]" 100] by simp

subsection \<open>The trend in exact arithmetic is a convex combination of the data\<close>

lemma gaussianKernel_pos: "0 < bandwidth \<Longrightarrow> 0 < gaussianKernel x bandwidth"
  by (simp add: gaussianKernel_def)

lemma kernel_fold:
  "foldl (\<lambda>(weightSum, valueSum) j. let weight = g j in (weightSum + weight, valueSum + weight * d j))
         (a, b) js = (a + (\<Sum>j\<leftarrow>js. g j), b + (\<Sum>j\<leftarrow>js. g j * d j))" for a b :: real
  by (induction js arbitrary: a b) (simp_all add: Let_def add.assoc)

lemma kernel_sums_eq:
  "kernel_sums data bandwidth i =
     ((\<Sum>j<length data. gaussianKernel (real_of_int (int i - int j)) bandwidth),
      (\<Sum>j<length data. gaussianKernel (real_of_int (int i - int j)) bandwidth * data ! j))"
  unfolding kernel_sums_def
  using kernel_fold [of "\<lambda>j. gaussianKernel (real_of_int (int i - int j)) bandwidth" "\<lambda>j. data ! j" 0 0 "[0..<length data]"]
  by (simp add: interv_sum_list_conv_sum_set_nat atLeast0LessThan)

lemma weighted_mean_bounds:
  fixes w d :: "nat \<Rightarrow> real"
  assumes "0 < n" and "\<And>j. j < n \<Longrightarrow> 0 < w j" and "\<And>j. j < n \<Longrightarrow> lo \<le> d j \<and> d j \<le> hi"
  shows "lo \<le> (\<Sum>j<n. w j * d j) / (\<Sum>j<n. w j) \<and> (\<Sum>j<n. w j * d j) / (\<Sum>j<n. w j) \<le> hi"
proof -
  have pos: "0 < (\<Sum>j<n. w j)"
    using assms(1,2) by (intro sum_pos) auto
  have "(\<Sum>j<n. w j * lo) \<le> (\<Sum>j<n. w j * d j)"
    using assms(2,3) by (intro sum_mono mult_left_mono) (auto simp: less_imp_le)
  then have l: "lo * (\<Sum>j<n. w j) \<le> (\<Sum>j<n. w j * d j)"
    by (simp add: sum_distrib_left mult.commute)
  have "(\<Sum>j<n. w j * d j) \<le> (\<Sum>j<n. w j * hi)"
    using assms(2,3) by (intro sum_mono mult_left_mono) (auto simp: less_imp_le)
  then have h: "(\<Sum>j<n. w j * d j) \<le> hi * (\<Sum>j<n. w j)"
    by (simp add: sum_distrib_left mult.commute)
  from pos l h show ?thesis
    by (simp add: pos_le_divide_eq pos_divide_le_eq)
qed

lemma length_trend: "length (trend (detrend data bandwidth)) = length data"
  by (simp add: detrend_def Let_def)

lemma length_residuals: "length (residuals (detrend data bandwidth)) = length data"
  by (simp add: detrend_def Let_def)

lemma trend_nth:
  "i < length data \<Longrightarrow> trend (detrend data bandwidth) ! i =
     snd (kernel_sums data bandwidth i) / fst (kernel_sums data bandwidth i)"
  by (simp add: detrend_def Let_def split: prod.splits)

text \<open>
  Over the reals, for a non-empty series and a positive bandwidth, every \<open>trend[i]\<close>
  lies between the least and the greatest input value (the kernel weights are positive,
  so the trend is a convex combination of the data), \<open>residual[i]\<close> is
  \<open>data[i] - trend[i]\<close>, and both arrays have the length of the input.  In doubles the
  bound holds up to rounding only, see below.
\<close>

lemma detrend_exact_convex_combination:
  assumes "data \<noteq> []" and "0 < bandwidth" and "i < length data"
  shows "Min (set data) \<le> trend (detrend data bandwidth) ! i \<and>
         trend (detrend data bandwidth) ! i \<le> Max (set data) \<and>
         residuals (detrend data bandwidth) ! i = data ! i - trend (detrend data bandwidth) ! i \<and>
         length (trend (detrend data bandwidth)) = length data \<and>
         length (residuals (detrend data bandwidth)) = length data"
proof -
  have n: "0 < length data" using assms(1) by simp
  have rng: "Min (set data) \<le> data ! j \<and> data ! j \<le> Max (set data)" if "j < length data" for j
    using that by simp
  have b: "Min (set data) \<le> snd (kernel_sums data bandwidth i) / fst (kernel_sums data bandwidth i) \<and>
           snd (kernel_sums data bandwidth i) / fst (kernel_sums data bandwidth i) \<le> Max (set data)"
    unfolding kernel_sums_eq fst_conv snd_conv
    by (rule weighted_mean_bounds [OF n gaussianKernel_pos [OF assms(2)] rng])
  have r: "residuals (detrend data bandwidth) ! i = data ! i - trend (detrend data bandwidth) ! i"
    using assms(3) by (simp add: detrend_def Let_def)
  show ?thesis
    using b r by (simp add: trend_nth [OF assms(3)] length_trend length_residuals)
qed

subsection \<open>Zero and negative bandwidths and window sizes\<close>

lemma gaussianKernel_minus: "gaussianKernel x (- bandwidth) = - gaussianKernel x bandwidth"
  by (simp add: gaussianKernel_def)

lemma kernel_sums_minus:
  "kernel_sums data (- bandwidth) i =
     (- fst (kernel_sums data bandwidth i), - snd (kernel_sums data bandwidth i))"
  by (simp add: kernel_sums_eq gaussianKernel_minus sum_negf)

lemma detrend_minus: "detrend data (- bandwidth) = detrend data bandwidth"
  by (simp add: detrend_def Let_def kernel_sums_minus split: prod.splits)

lemma ar1_at_nonpositive_window: "w \<le> 0 \<Longrightarrow> ar1_at res w i = 0"
  by (simp add: ar1_at_def ar1_sums_def ar1_windows_def correlation_sums_def Let_def)

lemma variance_at_nonpositive_window: "w \<le> 0 \<Longrightarrow> variance_at res w i = 0"
  by (simp add: variance_at_def js_slice_def Let_def min_def)

text \<open>
  C2, amended.  The engine has no precondition check: \<open>detrend\<close>, \<open>rollingAR1\<close>,
  \<open>rollingVariance\<close> and \<open>analyzeCSD\<close> return a value for every bandwidth and every
  window size and raise no error.  For a window size of zero or less, \<open>rollingAR1\<close> is
  \<open>null\<close> where \<open>i < windowSize + 1\<close> and \<open>0\<close> elsewhere, and \<open>rollingVariance\<close> is
  \<open>0\<close> at every index; for a negative bandwidth \<open>detrend\<close> returns what it returns
  for the bandwidth's absolute value.
\<close>

theorem misconfiguration_returns_value:
  "\<not> raised (call_detrend data bandwidth) \<and>
   \<not> raised (call_rollingAR1 res windowSize) \<and>
   \<not> raised (call_rollingVariance res windowSize) \<and>
   \<not> raised (call_analyzeCSD prices cfg) \<and>
   (windowSize \<le> 0 \<longrightarrow>
      call_rollingAR1 res windowSize =
        Returned (map (\<lambda>i. if int i < windowSize + 1 then None else Some 0) [0..<length res]) \<and>
      call_rollingVariance res windowSize = Returned (replicate (length res) (Some 0))) \<and>
   (bandwidth < 0 \<longrightarrow> call_detrend data bandwidth = call_detrend data (- bandwidth))"
proof -
  have "rollingVariance res windowSize = replicate (length res) (Some 0)" if "windowSize \<le> 0"
  proof (rule nth_equalityI)
    show "length (rollingVariance res windowSize) = length (replicate (length res) (Some 0))"
      by (simp add: length_rollingVariance)
  next
    fix i assume "i < length (rollingVariance res windowSize)"
    then show "rollingVariance res windowSize ! i = replicate (length res) (Some 0) ! i"
      using that by (simp add: rollingVariance_def variance_at_nonpositive_window)
  qed
  moreover have "detrend data bandwidth = detrend data (- bandwidth)"
    using detrend_minus [of data "- bandwidth"] by simp
  ultimately show ?thesis
    by (simp add: call_detrend_def call_rollingAR1_def call_rollingVariance_def
        call_analyzeCSD_def rollingAR1_def ar1_at_nonpositive_window)
qed

theorem misconfiguration_returns_value_witness:
  "(0::int) \<le> 0 \<and> call_rollingAR1 [1, 2, 3] 0 = Returned [None, Some 0, Some 0] \<and>
   call_rollingVariance [1, 2, 3] 0 = Returned [Some 0, Some 0, Some 0] \<and>
   (- 1::real) < 0 \<and> call_detrend [3, 5] (- 1) = call_detrend [3, 5] 1"
  using misconfiguration_returns_value [of "[3, 5]" "- 1" "[1, 2, 3]" 0]
  by (simp add: upt_conv_Cons numeral_3_eq_3)

lemma detrend_single: "detrend [3] (- 1) = \<lparr>trend = [3], residuals = [0]\<rparr>"
  by (simp add: detrend_def kernel_sums_def gaussianKernel_def Let_def)

text \<open>
  C2 as stated fails: with a negative bandwidth and with a zero or negative window size
  the calls raise no error and return arrays.
\<close>

theorem misconfiguration_not_rejected:
  "\<not> raised (call_detrend [3] (- 1)) \<and>
   call_detrend [3] (- 1) = Returned \<lparr>trend = [3], residuals = [0]\<rparr> \<and>
   \<not> raised (call_rollingAR1 [1, 2, 3] 0) \<and>
   call_rollingAR1 [1, 2, 3] 0 = Returned [None, Some 0, Some 0] \<and>
   call_rollingAR1 [1, 2, 3] (- 1) = Returned [Some 0, Some 0, Some 0] \<and>
   \<not> raised (call_rollingVariance [1, 2, 3] 0) \<and>
   call_rollingVariance [1, 2, 3] 0 = Returned [Some 0, Some 0, Some 0] \<and>
   call_rollingVariance [1, 2, 3] (- 1) = Returned [Some 0, Some 0, Some 0] \<and>
   \<not> raised (call_analyzeCSD [3]
     \<lparr>detrendBandwidth = Some (- 1), csdWindow = Some 0, tauLookback = None\<rparr>) \<and>
   call_analyzeCSD [3] \<lparr>detrendBandwidth = Some (- 1), csdWindow = Some 0, tauLookback = None\<rparr>
   = Returned \<lparr>trend = [3], residuals = [0], ar1Series = [None], varianceSeries = [Some 0],
        currentAR1 = 0, kendallTau_of = 0, status = NORMAL, currentVariance = 0\<rparr>"
proof -
  have a: "rollingAR1 [0] 0 = [None]"
    by (simp add: rollingAR1_def)
  have v: "rollingVariance [0] 0 = [Some 0]"
    by (simp add: rollingVariance_def variance_at_def js_slice_def Let_def)
  have k: "kendallTau [None] 100 = 0"
    by (simp add: kendallTau_def js_slice_from_def js_slice_def)
  have l: "js_slice_from [0::real] (- 1) = [0]"
    by (simp add: js_slice_from_def js_slice_def)
  have c: "call_analyzeCSD [3]
             \<lparr>detrendBandwidth = Some (- 1), csdWindow = Some 0, tauLookback = None\<rparr>
           = Returned \<lparr>trend = [3], residuals = [0], ar1Series = [None],
               varianceSeries = [Some 0], currentAR1 = 0, kendallTau_of = 0,
               status = NORMAL, currentVariance = 0\<rparr>"
    by (simp add: call_analyzeCSD_def analyzeCSD_def Let_def detrend_single a v k l)
  have r: "call_rollingAR1 [1, 2, 3] 0 = Returned [None, Some 0, Some 0] \<and>
           call_rollingAR1 [1, 2, 3] (- 1) = Returned [Some 0, Some 0, Some 0] \<and>
           call_rollingVariance [1, 2, 3] 0 = Returned [Some 0, Some 0, Some 0] \<and>
           call_rollingVariance [1, 2, 3] (- 1) = Returned [Some 0, Some 0, Some 0]"
    by (simp add: call_rollingAR1_def call_rollingVariance_def rollingAR1_def
        ar1_at_nonpositive_window rollingVariance_def variance_at_nonpositive_window
        upt_conv_Cons)
  have d: "call_detrend [3] (- 1) = Returned \<lparr>trend = [3], residuals = [0]\<rparr>"
    by (simp add: call_detrend_def detrend_single)
  show ?thesis
    unfolding c d using r by simp
qed

subsection \<open>Kendall's tau on monotone windows\<close>

lemma tau_inner_increasing:
  "(\<And>j. j \<in> set js \<Longrightarrow> i < j \<and> recent ! i < recent ! j) \<Longrightarrow>
   foldl (tau_step recent i) (c, d) js = (c + length js, d)"
proof (induction js arbitrary: c)
  case Nil
  then show ?case by simp
next
  case (Cons j js)
  have "i < j" "recent ! i < recent ! j" using Cons.prems [of j] by simp_all
  then have "0 < (real j - real i) * (recent ! j - recent ! i)" by simp
  then have "tau_step recent i (c, d) j = (c + 1, d)" by (simp add: tau_step_def Let_def)
  moreover have "foldl (tau_step recent i) (c + 1, d) js = (c + 1 + length js, d)"
    using Cons.prems by (intro Cons.IH) simp
  ultimately show ?case by simp
qed

lemma tau_inner_decreasing:
  "(\<And>j. j \<in> set js \<Longrightarrow> i < j \<and> recent ! j < recent ! i) \<Longrightarrow>
   foldl (tau_step recent i) (c, d) js = (c, d + length js)"
proof (induction js arbitrary: d)
  case Nil
  then show ?case by simp
next
  case (Cons j js)
  have ij: "i < j" "recent ! j < recent ! i" using Cons.prems [of j] by simp_all
  then have "(real j - real i) * (recent ! j - recent ! i) < 0"
    by (simp add: mult_pos_neg)
  then have "tau_step recent i (c, d) j = (c, d + 1)" by (simp add: tau_step_def Let_def)
  moreover have "foldl (tau_step recent i) (c, d + 1) js = (c, d + 1 + length js)"
    using Cons.prems by (intro Cons.IH) simp
  ultimately show ?case by simp
qed

lemma tau_outer_increasing:
  assumes "sorted_wrt (<) recent" and "k \<le> length recent - 1"
  shows "foldl (\<lambda>acc i. foldl (tau_step recent i) acc [i + 1..<length recent]) (0, 0) [0..<k]
         = ((\<Sum>i<k. length recent - 1 - i), 0)"
  using assms(2)
proof (induction k)
  case 0
  then show ?case by simp
next
  case (Suc k)
  have "foldl (tau_step recent k) (c, 0) [k + 1..<length recent] = (c + (length recent - 1 - k), 0)" for c
    using tau_inner_increasing [of "[k + 1..<length recent]" k recent c 0] assms(1)
    by (simp add: sorted_wrt_iff_nth_less)
  with Suc show ?case by simp
qed

lemma tau_outer_decreasing:
  assumes "sorted_wrt (>) recent" and "k \<le> length recent - 1"
  shows "foldl (\<lambda>acc i. foldl (tau_step recent i) acc [i + 1..<length recent]) (0, 0) [0..<k]
         = (0, (\<Sum>i<k. length recent - 1 - i))"
  using assms(2)
proof (induction k)
  case 0
  then show ?case by simp
next
  case (Suc k)
  have "foldl (tau_step recent k) (0, d) [k + 1..<length recent] = (0, d + (length recent - 1 - k))" for d
    using tau_inner_decreasing [of "[k + 1..<length recent]" k recent 0 d] assms(1)
    by (simp add: sorted_wrt_iff_nth_less)
  with Suc show ?case by simp
qed

lemma pair_count: "2 * (\<Sum>i<m. m - i) = m * (m + 1)" for m :: nat
proof (induction m)
  case 0
  then show ?case by simp
next
  case (Suc m)
  have "(\<Sum>i<m. Suc m - i) = (\<Sum>i<m. (m - i) + 1)"
    by (intro sum.cong) auto
  also have "\<dots> = (\<Sum>i<m. m - i) + m"
    by (simp only: sum.distrib) simp
  finally have "(\<Sum>i<Suc m. Suc m - i) = (\<Sum>i<m. m - i) + m + 1"
    by simp
  with Suc show ?case by simp
qed

lemma pair_count_real:
  assumes "1 \<le> n"
  shows "real (\<Sum>i<n - 1. n - 1 - i) = real n * (real n - 1) / 2"
proof -
  have "2 * real (\<Sum>i<n - 1. n - 1 - i) = real (2 * (\<Sum>i<n - 1. n - 1 - i))" by simp
  also have "\<dots> = real ((n - 1) * (n - 1 + 1))" by (simp only: pair_count)
  also have "\<dots> = real n * (real n - 1)" using assms by (simp add: of_nat_diff)
  finally show ?thesis by simp
qed

text \<open>
  C8.  When the trailing lookback window of the defined AR(1) values has at least 10
  entries and is strictly increasing, \<open>kendallTau\<close> returns exactly \<open>1\<close>; when it is
  strictly decreasing, exactly \<open>-1\<close>.
\<close>

theorem kendallTau_monotone:
  fixes series :: "real option list"
  assumes "recent = js_slice_from (non_null series) (- lookback)" and "10 \<le> length recent"
  shows "(sorted_wrt (<) recent \<longrightarrow> kendallTau series lookback = 1) \<and>
         (sorted_wrt (>) recent \<longrightarrow> kendallTau series lookback = - 1)"
proof -
  let ?n = "real (length recent)"
  have n: "1 \<le> length recent" "\<not> length recent < 10" using assms(2) by simp_all
  have ne: "recent \<noteq> []" using assms(2) by auto
  have "10 \<le> ?n" using assms(2) by simp
  then have "0 < ?n" "0 < ?n - 1" by linarith+
  then have pairs: "0 < ?n * (?n - 1) / 2" by simp
  have inc: "kendallTau series lookback = 1" if "sorted_wrt (<) recent"
  proof -
    define c where "c = (\<Sum>i<length recent - 1. length recent - 1 - i)"
    have c: "real c = ?n * (?n - 1) / 2"
      unfolding c_def by (rule pair_count_real [OF n(1)])
    have "tau_counts recent = (c, 0)"
      unfolding tau_counts_def c_def by (rule tau_outer_increasing [OF that order_refl])
    then show ?thesis
      unfolding kendallTau_def Let_def assms(1) [symmetric]
      using pairs n(2) c ne by simp
  qed
  have dec: "kendallTau series lookback = - 1" if "sorted_wrt (>) recent"
  proof -
    define c where "c = (\<Sum>i<length recent - 1. length recent - 1 - i)"
    have c: "real c = ?n * (?n - 1) / 2"
      unfolding c_def by (rule pair_count_real [OF n(1)])
    have "tau_counts recent = (0, c)"
      unfolding tau_counts_def c_def by (rule tau_outer_decreasing [OF that order_refl])
    then show ?thesis
      unfolding kendallTau_def Let_def assms(1) [symmetric]
      using pairs n(2) c ne by simp
  qed
  from inc dec show ?thesis by blast
qed

theorem kendallTau_monotone_witness:
  "[1, 2, 3, 4, 5, 6, 7, 8, 9, 10] =
     js_slice_from (non_null [None, Some 1, Some 2, Some 3, Some 4, Some 5, Some 6, Some 7,
                              Some 8, Some 9, Some (10::real)]) (- 100) \<and>
   10 \<le> length [1, 2, 3, 4, 5, 6, 7, 8, 9, 10::real] \<and>
   sorted_wrt (<) [1, 2, 3, 4, 5, 6, 7, 8, 9, 10::real] \<and>
   kendallTau [None, Some 1, Some 2, Some 3, Some 4, Some 5, Some 6, Some 7, Some 8, Some 9,
               Some 10] 100 = 1 \<and>
   [10, 9, 8, 7, 6, 5, 4, 3, 2, 1] =
     js_slice_from (non_null [Some 11, Some 10, Some 9, Some 8, Some 7, Some 6, Some 5, Some 4,
                              Some 3, Some 2, Some (1::real)]) (- 10) \<and>
   sorted_wrt (>) [10, 9, 8, 7, 6, 5, 4, 3, 2, 1::real] \<and>
   kendallTau [Some 11, Some 10, Some 9, Some 8, Some 7, Some 6, Some 5, Some 4, Some 3, Some 2,
               Some 1] 10 = - 1"
  using kendallTau_monotone [of "[1, 2, 3, 4, 5, 6, 7, 8, 9, 10]"
      "[None, Some 1, Some 2, Some 3, Some 4, Some 5, Some 6, Some 7, Some 8, Some 9, Some 10]" 100]
    kendallTau_monotone [of "[10, 9, 8, 7, 6, 5, 4, 3, 2, 1]"
      "[Some 11, Some 10, Some 9, Some 8, Some 7, Some 6, Some 5, Some 4, Some 3, Some 2, Some 1]" 10]
  by (simp add: js_slice_from_def js_slice_def)

section \<open>Properties of the LPPL model\<close>

subsection \<open>Short series\<close>

text \<open>
  C6.  On fewer than 100 prices \<open>optimize\<close> (and \<open>optimizeLPPL\<close>, and the handler's copy)
  returns at once the result with \<open>isBubble\<close> false, \<open>confidence\<close> 0 and \<open>r2\<close> 0.
\<close>

theorem optimize_too_short:
  assumes "length prices < 100"
  shows "optimize prices dates = too_short \<and> optimizeLPPL prices dates = too_short \<and>
         handler_optimize prices = too_short \<and>
         \<not> isBubble too_short \<and> confidence too_short = 0 \<and> r2 too_short = 0"
  using assms by (simp add: optimize_def optimizeLPPL_def handler_optimize_def too_short_def)

theorem optimize_too_short_witness:
  "length [1, 2, 3::real] < 100 \<and> optimize [1, 2, 3] [] = too_short \<and>
   handler_optimize [1, 2, 3] = too_short"
  using optimize_too_short [of "[1, 2, 3]" "[]"] by simp

subsection \<open>The grid search keeps an accepted candidate\<close>

lemma foldl_concat_map:
  "foldl g a (concat (map h xs)) = foldl (\<lambda>s x. foldl g s (h x)) a xs"
  by (induction xs arbitrary: a) simp_all

lemma grid_loops_flat:
  "grid_loops candidate tcs ms omegas phis =
     foldl (grid_step candidate) (None, None) (grid_points tcs ms omegas phis)"
  unfolding grid_loops_def grid_points_def foldl_concat_map foldl_map
  by (simp add: grid_step_def)

lemma best_ok_step:
  assumes "best_ok candidate ps s"
  shows "best_ok candidate (insert p ps) (grid_step candidate s p)"
proof -
  obtain tc m omega phi where p: "p = (tc, m, omega, phi)" by (cases p) auto
  obtain bf br where s: "s = (bf, br)" by (cases s)
  show ?thesis
  proof (cases "candidate tc m omega phi")
    case None
    then show ?thesis
      using assms by (auto simp: grid_step_def p best_ok_def split: option.splits prod.splits)
  next
    case (Some f)
    then show ?thesis
      using assms
      by (cases bf) (auto simp: grid_step_def p s best_ok_def keep_best_def split: option.splits)
  qed
qed

lemma best_ok_foldl:
  "best_ok candidate ps s \<Longrightarrow>
   best_ok candidate (ps \<union> set pts) (foldl (grid_step candidate) s pts)"
proof (induction pts arbitrary: s ps)
  case Nil
  then show ?case by simp
next
  case (Cons p pts)
  from best_ok_step [OF Cons.prems, of p]
  have "best_ok candidate (insert p ps \<union> set pts)
          (foldl (grid_step candidate) (grid_step candidate s p) pts)"
    by (rule Cons.IH)
  then show ?case by simp
qed

lemma grid_loops_ok:
  "best_ok candidate (set (grid_points tcs ms omegas phis)) (grid_loops candidate tcs ms omegas phis)"
  using best_ok_foldl [of candidate "{}" "(None, None)" "grid_points tcs ms omegas phis"]
  by (simp add: grid_loops_flat best_ok_def)

lemma found_step:
  assumes "best_ok candidate ps s" and "fst s \<noteq> None"
  shows "fst (grid_step candidate s p) \<noteq> None"
  using assms
  by (cases p; cases s)
     (auto simp: grid_step_def keep_best_def best_ok_def split: option.splits)

lemma found_good_step:
  assumes "best_ok candidate ps s" and "candidate tc m omega phi = Some f" and "fit_r2 f > 0.75"
  shows "fst (grid_step candidate s (tc, m, omega, phi)) \<noteq> None"
  using assms
  by (cases s) (auto simp: grid_step_def keep_best_def best_ok_def split: option.splits)

lemma found_foldl_keeps:
  "best_ok candidate ps s \<Longrightarrow> fst s \<noteq> None \<Longrightarrow> fst (foldl (grid_step candidate) s pts) \<noteq> None"
proof (induction pts arbitrary: s ps)
  case Nil
  then show ?case by simp
next
  case (Cons p pts)
  show ?case
    using Cons.IH [OF best_ok_step [OF Cons.prems(1), of p] found_step [OF Cons.prems]]
    by simp
qed

lemma found_foldl:
  assumes "best_ok candidate ps s" and "(tc, m, omega, phi) \<in> set pts"
    and "candidate tc m omega phi = Some f" and "fit_r2 f > 0.75"
  shows "fst (foldl (grid_step candidate) s pts) \<noteq> None"
  using assms(1,2)
proof (induction pts arbitrary: s ps)
  case Nil
  then show ?case by simp
next
  case (Cons p pts)
  show ?case
  proof (cases "p = (tc, m, omega, phi)")
    case True
    have "fst (grid_step candidate s p) \<noteq> None"
      unfolding True by (rule found_good_step [OF Cons.prems(1) assms(3,4)])
    from found_foldl_keeps [OF best_ok_step [OF Cons.prems(1), of p] this]
    show ?thesis by simp
  next
    case False
    with Cons.prems(2) have "(tc, m, omega, phi) \<in> set pts" by simp
    from Cons.IH [OF best_ok_step [OF Cons.prems(1), of p] this]
    show ?thesis by simp
  qed
qed

lemma grid_loops_found:
  assumes "tc \<in> set tcs" "m \<in> set ms" "omega \<in> set omegas" "phi \<in> set phis"
    and "candidate tc m omega phi = Some f" and "fit_r2 f > 0.75"
  shows "fst (grid_loops candidate tcs ms omegas phis) \<noteq> None"
proof -
  have pt: "(tc, m, omega, phi) \<in> set (grid_points tcs ms omegas phis)"
    using assms(1-4) by (auto simp: grid_points_def)
  have ok: "best_ok candidate {} (None, None)" by (simp add: best_ok_def)
  show ?thesis
    unfolding grid_loops_flat by (rule found_foldl [OF ok pt assms(5,6)])
qed

lemma grid_loops_Some:
  assumes "fst (grid_loops candidate tcs ms omegas phis) = Some f"
  shows "fit_r2 f > 0.75 \<and>
         (\<exists>tc\<in>set tcs. \<exists>m\<in>set ms. \<exists>omega\<in>set omegas. \<exists>phi\<in>set phis.
            candidate tc m omega phi = Some f)"
  using grid_loops_ok [of candidate tcs ms omegas phis] assms
  by (cases "grid_loops candidate tcs ms omegas phis")
     (auto simp: best_ok_def grid_points_def)

subsection \<open>The determinant of \<open>X\<^sup>T X\<close> dominates the squared determinant of any three rows\<close>

lemma col_numerals [simp]: "col 1 (x0, x1, x2) = x1" "col 2 (x0, x1, x2) = x2"
  by (simp_all add: numeral_2_eq_2)

lemma det3_add_outer:
  "det3 (\<lambda>i j. outer x i j + M i j) = det3 M + qf (adjugate M) x"
  by (cases x) (simp add: det3_def qf_def adjugate_def outer_def algebra_simps)

lemma adjugate_add_outer:
  "qf (adjugate (\<lambda>i j. outer y i j + M i j)) x = qf (adjugate M) x + qf M (cross x y)"
  by (cases x; cases y) (simp add: qf_def adjugate_def outer_def cross_def algebra_simps)

lemma qf_add_outer:
  "qf (\<lambda>i j. outer x i j + M i j) c = (case c of (c0, c1, c2) \<Rightarrow>
      (c0 * col 0 x + c1 * col 1 x + c2 * col 2 x)\<^sup>2) + qf M c"
  by (cases x; cases c) (simp add: qf_def outer_def algebra_simps power2_eq_square)

lemma gram_empty: "gram r {} = (\<lambda>i j. 0)"
  by (simp add: gram_def fun_eq_iff)

lemma gram_insert:
  "finite S \<Longrightarrow> k \<notin> S \<Longrightarrow> gram r (insert k S) = (\<lambda>i j. outer (r k) i j + gram r S i j)"
  by (simp add: gram_def outer_def fun_eq_iff)

lemma qf_gram_nonneg: "finite S \<Longrightarrow> 0 \<le> qf (gram r S) c"
proof (induction S rule: finite_induct)
  case empty
  then show ?case by (cases c) (simp add: gram_empty qf_def)
next
  case (insert k S)
  then show ?case
    by (cases c) (simp add: gram_insert qf_add_outer)
qed

lemma adjugate_gram_nonneg: "finite S \<Longrightarrow> 0 \<le> qf (adjugate (gram r S)) x"
proof (induction S rule: finite_induct)
  case empty
  then show ?case by (cases x) (simp add: gram_empty qf_def adjugate_def)
next
  case (insert k S)
  then show ?case
    using qf_gram_nonneg [of S r "cross x (r k)"]
    by (simp add: gram_insert adjugate_add_outer)
qed

lemma det3_gram_insert:
  "finite S \<Longrightarrow> k \<notin> S \<Longrightarrow> det3 (gram r S) \<le> det3 (gram r (insert k S))"
  using adjugate_gram_nonneg [of S r "r k"] by (simp add: gram_insert det3_add_outer)

lemma det3_gram_union:
  "finite D \<Longrightarrow> finite T \<Longrightarrow> det3 (gram r T) \<le> det3 (gram r (T \<union> D))"
proof (induction D rule: finite_induct)
  case empty
  then show ?case by simp
next
  case (insert k D)
  show ?case
  proof (cases "k \<in> T")
    case True
    then have "T \<union> insert k D = T \<union> D" by auto
    then show ?thesis using insert by simp
  next
    case False
    then have "k \<notin> T \<union> D" using insert.hyps by simp
    from det3_gram_insert [OF _ this, of r] insert.prems insert.hyps(1)
    have "det3 (gram r (T \<union> D)) \<le> det3 (gram r (insert k (T \<union> D)))" by simp
    then show ?thesis using insert.IH [OF insert.prems] by simp
  qed
qed

lemma det3_gram_mono:
  assumes "finite S" and "T \<subseteq> S"
  shows "det3 (gram r T) \<le> det3 (gram r S)"
proof -
  have "finite T" using assms by (rule rev_finite_subset)
  moreover have "T \<union> S = S" using assms(2) by auto
  ultimately show ?thesis using det3_gram_union [OF assms(1), of T r] by simp
qed

lemma det3_gram_three:
  assumes "i \<noteq> j" "i \<noteq> k" "j \<noteq> k"
  shows "det3 (gram r {i, j, k}) = (minor3 (r i) (r j) (r k))\<^sup>2"
  using assms
  by (cases "r i"; cases "r j"; cases "r k")
     (simp add: det3_def gram_def minor3_def power2_eq_square algebra_simps)

lemma XtX_gram: "XtX X = gram (\<lambda>k. X ! k) {..<length X}"
  by (simp add: XtX_def gram_def fun_eq_iff foldl_add_sum interv_sum_list_conv_sum_set_nat
      atLeast0LessThan)

lemma det3_XtX_minor:
  assumes "i < length X" "j < length X" "k < length X" "i \<noteq> j" "i \<noteq> k" "j \<noteq> k"
  shows "(minor3 (X ! i) (X ! j) (X ! k))\<^sup>2 \<le> det3 (XtX X)"
  unfolding XtX_gram det3_gram_three [OF assms(4-6), of "\<lambda>k. X ! k", symmetric]
  using assms(1-3) by (intro det3_gram_mono) auto

subsection \<open>An exact fit on a series that lies on the curve\<close>

lemma designRows_valid:
  "\<forall>t\<in>set ts. t < tc \<Longrightarrow>
   designRows tc m omega phi ts = Some (map (designRow tc m omega phi) ts)"
  by (induction ts) (simp_all add: Let_def designRow_def)

lemma designRows_series:
  "designRows (real (n + 5)) m omega phi (map real [0..<n]) =
     Some (map (\<lambda>i. designRow (real (n + 5)) m omega phi (real i)) [0..<n])"
proof -
  have "\<forall>t\<in>set (map real [0..<n]). t < real (n + 5)" by auto
  from designRows_valid [OF this] show ?thesis by (simp add: comp_def)
qed

lemma length_lppl_series [simp]: "length (lppl_series n) = n"
  by (simp add: lppl_series_def)

lemma ln_lppl_series: "map ln (lppl_series n) = map (\<lambda>i. - sqrt (real (n + 5 - i))) [0..<n]"
  by (simp add: lppl_series_def)

lemma Xty_of_column:
  assumes "\<And>k. k < length X \<Longrightarrow> y ! k = - col 1 (X ! k)"
  shows "Xty X y i = - XtX X i 1"
proof -
  have "Xty X y i = (\<Sum>k<length X. col i (X ! k) * y ! k)"
    by (simp add: Xty_def foldl_add_sum interv_sum_list_conv_sum_set_nat atLeast0LessThan)
  also have "\<dots> = (\<Sum>k<length X. - (col i (X ! k) * col 1 (X ! k)))"
    using assms by (intro sum.cong) simp_all
  also have "\<dots> = - XtX X i 1"
    by (simp add: XtX_def foldl_add_sum interv_sum_list_conv_sum_set_nat atLeast0LessThan sum_negf)
  finally show ?thesis .
qed

lemma solve3x3_column:
  assumes "1 / 10 ^ 10 \<le> \<bar>det3 M\<bar>"
  shows "solve3x3 M (\<lambda>i. - M i 1) = Some (0, - 1, 0)"
proof -
  define D where "D = det3 M"
  have D: "D \<noteq> 0" "\<not> \<bar>D\<bar> < 1 / 10 ^ 10" using assms by (auto simp: D_def)
  have n0: "(M 1 1 * M 2 2 - M 1 2 * M 2 1) * (1 / D) * - M 0 1 +
            (M 0 2 * M 2 1 - M 0 1 * M 2 2) * (1 / D) * - M 1 1 +
            (M 0 1 * M 1 2 - M 0 2 * M 1 1) * (1 / D) * - M 2 1 = 0"
    by (simp add: algebra_simps)
  have "(M 1 2 * M 2 0 - M 1 0 * M 2 2) * - M 0 1 +
        (M 0 0 * M 2 2 - M 0 2 * M 2 0) * - M 1 1 +
        (M 0 2 * M 1 0 - M 0 0 * M 1 2) * - M 2 1 = - D"
    by (simp add: D_def det3_def algebra_simps)
  then have "((M 1 2 * M 2 0 - M 1 0 * M 2 2) * - M 0 1 +
        (M 0 0 * M 2 2 - M 0 2 * M 2 0) * - M 1 1 +
        (M 0 2 * M 1 0 - M 0 0 * M 1 2) * - M 2 1) * (1 / D) = - 1"
    using D(1) by simp
  then have n1: "(M 1 2 * M 2 0 - M 1 0 * M 2 2) * (1 / D) * - M 0 1 +
            (M 0 0 * M 2 2 - M 0 2 * M 2 0) * (1 / D) * - M 1 1 +
            (M 0 2 * M 1 0 - M 0 0 * M 1 2) * (1 / D) * - M 2 1 = - 1"
    by (simp add: algebra_simps)
  have n2: "(M 1 0 * M 2 1 - M 1 1 * M 2 0) * (1 / D) * - M 0 1 +
            (M 0 1 * M 2 0 - M 0 0 * M 2 1) * (1 / D) * - M 1 1 +
            (M 0 0 * M 1 1 - M 0 1 * M 1 0) * (1 / D) * - M 2 1 = 0"
    by (simp add: algebra_simps)
  show ?thesis
    unfolding solve3x3_def Let_def D_def [symmetric]
    using D(2) by (simp only: if_False n0 n1 n2)
qed

lemma solveOLS_linearRegression: "solveOLS X y = linearRegression X y"
  by (simp add: solveOLS_def linearRegression_def solve3x3_def det3_def Let_def)

lemma series_rows_nth:
  "k < n \<Longrightarrow> series_rows n phi ! k =
     (1, sqrt (real (n + 5 - k)),
      sqrt (real (n + 5 - k)) * cos (8 * ln (real (n + 5 - k)) + phi))"
  by (simp add: series_rows_def designRow_def powr_half_sqrt of_nat_diff)

lemma length_series_rows [simp]: "length (series_rows n phi) = n"
  by (simp add: series_rows_def)

lemma linearRegression_series:
  assumes "1 / 10 ^ 10 \<le> \<bar>det3 (XtX (series_rows n phi))\<bar>"
  shows "linearRegression (series_rows n phi) (map ln (lppl_series n)) = Some (0, - 1, 0)"
proof -
  have "Xty (series_rows n phi) (map ln (lppl_series n)) i = - XtX (series_rows n phi) i 1" for i
    by (rule Xty_of_column) (simp add: ln_lppl_series series_rows_nth)
  then have "Xty (series_rows n phi) (map ln (lppl_series n)) = (\<lambda>i. - XtX (series_rows n phi) i 1)"
    by (simp add: fun_eq_iff)
  then show ?thesis
    unfolding linearRegression_def using solve3x3_column [OF assms] by simp
qed

lemma predicted_series:
  "map (\<lambda>ti. lpplFunction ti (real (n + 5)) 0 (- 1) 0 (1 / 2) 8 phi) (map real [0..<n]) =
     map ln (lppl_series n)"
  by (simp add: ln_lppl_series lpplFunction_def Let_def powr_half_sqrt of_nat_diff)

lemma sum_squares_pos:
  fixes ys :: "real list"
  assumes "a \<in> set ys" "b \<in> set ys" "a \<noteq> b"
  shows "0 < (\<Sum>y\<leftarrow>ys. (y - c)\<^sup>2)"
proof (rule ccontr)
  assume "\<not> 0 < (\<Sum>y\<leftarrow>ys. (y - c)\<^sup>2)"
  moreover have "0 \<le> (\<Sum>y\<leftarrow>ys. (y - c)\<^sup>2)"
    by (rule sum_list_nonneg) auto
  ultimately have "(\<Sum>y\<leftarrow>ys. (y - c)\<^sup>2) = 0" by simp
  then have z: "\<forall>x\<in>set (map (\<lambda>y. (y - c)\<^sup>2) ys). x = 0"
    by (subst (asm) sum_list_nonneg_eq_0_iff) auto
  have "(a - c)\<^sup>2 = 0" using z assms(1) by (simp add: image_iff)
  moreover have "(b - c)\<^sup>2 = 0" using z assms(2) by (simp add: image_iff)
  ultimately have "a = c" "b = c" by simp_all
  with assms(3) show False by simp
qed

lemma rSquared_exact:
  assumes "a \<in> set ys" "b \<in> set ys" "a \<noteq> b"
  shows "rSquared ys ys n = 1"
proof -
  have "foldl (\<lambda>sum i. sum + (ys ! i - ys ! i)\<^sup>2) 0 [0..<length ys] =
        0 + (\<Sum>i\<leftarrow>[0..<length ys]. (ys ! i - ys ! i)\<^sup>2)"
    by (rule foldl_add_sum)
  then have res: "foldl (\<lambda>sum i. sum + (ys ! i - ys ! i)\<^sup>2) 0 [0..<length ys] = 0"
    by simp
  have tot: "0 < foldl (\<lambda>sum yi. sum + (yi - c)\<^sup>2) 0 ys" for c
    using sum_squares_pos [OF assms, of c] by (simp add: foldl_add_sum)
  show ?thesis
    unfolding rSquared_def Let_def res using tot by simp
qed

lemma rSquared_series:
  assumes "2 \<le> n"
  shows "rSquared (map ln (lppl_series n)) (map ln (lppl_series n)) n = 1"
proof (rule rSquared_exact)
  show "- sqrt 6 \<in> set (map ln (lppl_series n))"
    using assms by (auto simp: ln_lppl_series image_iff intro!: bexI [of _ "n - 1"])
  show "- sqrt 7 \<in> set (map ln (lppl_series n))"
    using assms by (auto simp: ln_lppl_series image_iff intro!: bexI [of _ "n - 2"])
  show "- sqrt 6 \<noteq> - sqrt 7" by simp
qed

lemma fitCandidate_series:
  assumes "1 / 10 ^ 10 \<le> \<bar>det3 (XtX (series_rows n phi))\<bar>" and "2 \<le> n"
  shows "fitCandidate (map ln (lppl_series n)) n (n + 5) (1 / 2) 8 phi = Some (series_fit n phi)"
    and "handler_fitCandidate (map ln (lppl_series n)) n (n + 5) (1 / 2) 8 phi
           = Some (series_fit n phi)"
proof -
  have rows: "designRows (real (n + 5)) (1 / 2) 8 phi (map real [0..<n]) =
              Some (series_rows n phi)"
    unfolding series_rows_def by (rule designRows_series)
  note reg = linearRegression_series [OF assms(1)]
  note r = rSquared_series [OF assms(2)]
  show "fitCandidate (map ln (lppl_series n)) n (n + 5) (1 / 2) 8 phi = Some (series_fit n phi)"
    unfolding fitCandidate_def Let_def rows option.case reg prod.case predicted_series r
    by (simp add: series_fit_def)
  show "handler_fitCandidate (map ln (lppl_series n)) n (n + 5) (1 / 2) 8 phi
          = Some (series_fit n phi)"
    unfolding handler_fitCandidate_def Let_def rows option.case solveOLS_linearRegression reg
      prod.case predicted_series r
    by (simp add: series_fit_def)
qed

subsection \<open>The design matrix of the series is regular for one of two phases\<close>

lemma trig_sum_squares:
  fixes u v w :: real
  shows "(u * cos a + v * cos (a + d) + w * cos (a + 2 * d))\<^sup>2 +
         (u * sin a + v * sin (a + d) + w * sin (a + 2 * d))\<^sup>2 =
         u\<^sup>2 + v\<^sup>2 + w\<^sup>2 + 2 * u * v * cos d + 2 * v * w * cos d + 2 * u * w * (2 * (cos d)\<^sup>2 - 1)"
proof -
  define c s cd sd where "c = cos a" and "s = sin a" and "cd = cos d" and "sd = sin d"
  have 1: "c\<^sup>2 + s\<^sup>2 = 1" and 2: "cd\<^sup>2 + sd\<^sup>2 = 1"
    by (simp_all add: c_def s_def cd_def sd_def)
  have e1: "cos (a + d) = c * cd - s * sd" "sin (a + d) = s * cd + c * sd"
    by (simp_all add: cos_add sin_add c_def s_def cd_def sd_def)
  have e2: "cos (a + 2 * d) = c * (cd\<^sup>2 - sd\<^sup>2) - s * (2 * sd * cd)"
           "sin (a + 2 * d) = s * (cd\<^sup>2 - sd\<^sup>2) + c * (2 * sd * cd)"
    by (simp_all add: cos_add sin_add cos_double sin_double c_def s_def cd_def sd_def)
  show ?thesis
    unfolding e1 e2 c_def [symmetric] s_def [symmetric] cd_def [symmetric]
    using 1 2 by algebra
qed

lemma cos_nonpos:
  fixes x :: real
  assumes "2 \<le> x" "x \<le> 3"
  shows "cos x \<le> 0"
proof -
  have "- (pi / 2) \<le> x - pi" "x - pi \<le> pi / 2"
    using assms pi_half_less_two pi_ge_two by linarith+
  then have "0 \<le> cos (x - pi)" by (rule cos_ge_zero)
  then show ?thesis by (simp add: cos_diff)
qed

lemma ln_four_thirds: "1 / 4 \<le> ln (4 / 3 :: real)" "ln (4 / 3 :: real) \<le> 3 / 8"
proof -
  have "exp (1 / 4 :: real) ^ 4 = exp 1"
    using exp_of_nat_mult [of 4 "1 / 4 :: real"] by simp
  also have "\<dots> \<le> (4 / 3) ^ 4"
    using exp_le by (simp add: power_divide)
  finally have p: "exp (1 / 4 :: real) ^ 4 \<le> (4 / 3) ^ 4" .
  have "exp (1 / 4 :: real) \<le> 4 / 3"
    using p by simp
  then show "1 / 4 \<le> ln (4 / 3 :: real)"
    by (subst ln_ge_iff) simp_all
  have "(4 / 3 :: real) \<le> 1 + 3 / 8" by simp
  also have "\<dots> \<le> exp (3 / 8)" by (rule exp_ge_add_one_self)
  finally have "ln (4 / 3 :: real) \<le> ln (exp (3 / 8))"
    by (subst ln_le_cancel_iff) simp_all
  then show "ln (4 / 3 :: real) \<le> 3 / 8" by simp
qed

lemma cos_eight_ln_four_thirds: "cos (8 * ln (4 / 3 :: real)) \<le> 0"
  using ln_four_thirds by (intro cos_nonpos) simp_all

lemma sqrt_values: "sqrt 9 = 3" "sqrt 16 = 4"
  using real_sqrt_abs [of 3] real_sqrt_abs [of 4] by simp_all

lemma sqrt_twelve: "(sqrt 12)\<^sup>2 = 12" "sqrt 12 \<le> 7 / 2" "3 \<le> sqrt 12"
proof -
  show "(sqrt 12)\<^sup>2 = 12" by simp
  show "sqrt 12 \<le> 7 / 2" by (rule real_le_lsqrt) (simp_all add: power2_eq_square)
  show "3 \<le> sqrt 12" by (rule real_le_rsqrt) (simp add: power2_eq_square)
qed

lemma ln_twelve: "ln (12 :: real) = ln 9 + ln (4 / 3)"
  using ln_mult [of "9 :: real" "4 / 3"] by simp

lemma ln_sixteen: "ln (16 :: real) = ln 9 + 2 * ln (4 / 3)"
proof -
  have "ln (16 :: real) = ln (9 * ((4 / 3) * (4 / 3)))" by simp
  also have "\<dots> = ln 9 + (ln (4 / 3) + ln (4 / 3))"
    by (simp only: ln_mult_pos) 
  finally show ?thesis by simp
qed

lemma cos_add_pi_half: "cos (x + pi / 2) = - sin x"
  by (simp add: cos_add)

lemma series_minor:
  assumes "11 \<le> n"
  shows "minor3 (series_rows n phi ! (n - 4)) (series_rows n phi ! (n - 7))
           (series_rows n phi ! (n - 11)) =
         3 * (4 - sqrt 12) * cos (8 * ln 9 + phi)
         + (- sqrt 12) * cos (8 * ln 9 + 8 * ln (4 / 3) + phi)
         + 4 * (sqrt 12 - 3) * cos (8 * ln 9 + 2 * (8 * ln (4 / 3)) + phi)"
proof -
  have k: "n - 4 < n" "n - 7 < n" "n - 11 < n" using assms by simp_all
  have d: "n + 5 - (n - 4) = 9" "n + 5 - (n - 7) = 12" "n + 5 - (n - 11) = 16"
    using assms by simp_all
  show ?thesis
    unfolding series_rows_nth [OF k(1)] series_rows_nth [OF k(2)] series_rows_nth [OF k(3)] d
    by (simp add: minor3_def sqrt_values ln_twelve ln_sixteen algebra_simps)
qed

lemma minor_squares_bound:
  fixes u w cd :: real
  assumes "3 / 2 \<le> u" "0 \<le> w" "cd \<le> 0"
  shows "9 / 2 \<le> u\<^sup>2 + (- (u + w))\<^sup>2 + w\<^sup>2 + 2 * u * (- (u + w)) * cd
                  + 2 * (- (u + w)) * w * cd + 2 * u * w * (2 * cd\<^sup>2 - 1)"
proof -
  have e: "u\<^sup>2 + (- (u + w))\<^sup>2 + w\<^sup>2 + 2 * u * (- (u + w)) * cd
             + 2 * (- (u + w)) * w * cd + 2 * u * w * (2 * cd\<^sup>2 - 1)
           = 2 * ((1 - cd) * (u\<^sup>2 + w\<^sup>2 - 2 * (u * w * cd)))"
    by algebra
  have "u * w * cd \<le> 0"
    using assms by (intro mult_nonneg_nonpos mult_nonneg_nonneg) simp_all
  moreover have "(3 / 2)\<^sup>2 \<le> u\<^sup>2"
    using assms(1) by (intro power_mono) simp_all
  then have "9 / 4 \<le> u\<^sup>2" by (simp add: power2_eq_square)
  moreover have "0 \<le> w\<^sup>2" by simp
  ultimately have b: "9 / 4 \<le> u\<^sup>2 + w\<^sup>2 - 2 * (u * w * cd)"
    by linarith
  have "1 * (9 / 4) \<le> (1 - cd) * (u\<^sup>2 + w\<^sup>2 - 2 * (u * w * cd))"
    using assms(3) b by (intro mult_mono) simp_all
  then show ?thesis unfolding e by simp
qed

lemma series_det_bound:
  assumes "11 \<le> n"
  shows "1 / 10 ^ 10 \<le> \<bar>det3 (XtX (series_rows n 0))\<bar> \<or>
         1 / 10 ^ 10 \<le> \<bar>det3 (XtX (series_rows n (pi / 2)))\<bar>"
proof -
  define a d where "a = 8 * ln (9 :: real)" and "d = 8 * ln (4 / 3 :: real)"
  define u w where "u = 3 * (4 - sqrt 12)" and "w = 4 * (sqrt 12 - 3)"
  define P where "P = u * cos a + (- (u + w)) * cos (a + d) + w * cos (a + 2 * d)"
  define Q where "Q = u * sin a + (- (u + w)) * sin (a + d) + w * sin (a + 2 * d)"
  have uw: "3 / 2 \<le> u" "0 \<le> w" "u + w = sqrt 12"
    using sqrt_twelve(2,3) by (simp_all add: u_def w_def)
  have cd: "cos d \<le> 0" unfolding d_def by (rule cos_eight_ln_four_thirds)
  have "P\<^sup>2 + Q\<^sup>2 = u\<^sup>2 + (- (u + w))\<^sup>2 + w\<^sup>2 + 2 * u * (- (u + w)) * cos d
            + 2 * (- (u + w)) * w * cos d + 2 * u * w * (2 * (cos d)\<^sup>2 - 1)"
    unfolding P_def Q_def by (rule trig_sum_squares)
  also have "\<dots> \<ge> 9 / 2" by (rule minor_squares_bound [OF uw(1,2) cd])
  finally have PQ: "9 / 2 \<le> P\<^sup>2 + Q\<^sup>2" .
  have i: "n - 4 < n" "n - 7 < n" "n - 11 < n" "n - 4 \<noteq> n - 7" "n - 4 \<noteq> n - 11"
    "n - 7 \<noteq> n - 11" using assms by simp_all
  have m0: "minor3 (series_rows n 0 ! (n - 4)) (series_rows n 0 ! (n - 7))
              (series_rows n 0 ! (n - 11)) = P"
    unfolding series_minor [OF assms] P_def a_def d_def u_def w_def
    by (simp add: algebra_simps)
  have m1: "minor3 (series_rows n (pi / 2) ! (n - 4)) (series_rows n (pi / 2) ! (n - 7))
              (series_rows n (pi / 2) ! (n - 11)) = - Q"
    unfolding series_minor [OF assms] cos_add_pi_half Q_def a_def d_def u_def w_def
    by (simp add: algebra_simps)
  have d0: "P\<^sup>2 \<le> det3 (XtX (series_rows n 0))"
    using det3_XtX_minor [of "n - 4" "series_rows n 0" "n - 7" "n - 11"] i by (simp add: m0)
  have d1: "Q\<^sup>2 \<le> det3 (XtX (series_rows n (pi / 2)))"
    using det3_XtX_minor [of "n - 4" "series_rows n (pi / 2)" "n - 7" "n - 11"] i
    by (simp add: m1)
  have "9 / 4 \<le> P\<^sup>2 \<or> 9 / 4 \<le> Q\<^sup>2" using PQ by linarith
  then show ?thesis
  proof
    assume "9 / 4 \<le> P\<^sup>2"
    with d0 have "1 / 10 ^ 10 \<le> \<bar>det3 (XtX (series_rows n 0))\<bar>" by simp
    then show ?thesis ..
  next
    assume "9 / 4 \<le> Q\<^sup>2"
    with d1 have "1 / 10 ^ 10 \<le> \<bar>det3 (XtX (series_rows n (pi / 2)))\<bar>" by simp
    then show ?thesis ..
  qed
qed

subsection \<open>The candidate grids\<close>

lemma tcRange_eq: "tcRange n = map (\<lambda>k. n + 5 + 10 * k) [0..<20]"
  by (simp add: tcRange_def upt_conv_Cons)

lemma handler_tcLoop_eq:
  "handler_tcLoop (n + 5) (n + 200) = map (\<lambda>k. n + 5 + 15 * k) [0..<14]"
  by (simp add: upt_conv_Cons)

lemma first_tc: "n + 5 \<in> set (tcRange n)" "n + 5 \<in> set (handler_tcLoop (n + 5) (n + 200))"
  by (simp_all add: tcRange_eq handler_tcLoop_eq upt_conv_Cons)

lemma tcRange_mod: "tc \<in> set (tcRange n) \<Longrightarrow> tc mod 10 = (n + 5) mod 10"
  by (auto simp: tcRange_eq)

lemma fitCandidate_tc: "fitCandidate logPrices n tc m omega phi = Some f \<Longrightarrow> fit_tc f = tc"
  by (auto simp: fitCandidate_def Let_def split: option.splits if_splits)

lemma handler_fitCandidate_tc:
  "handler_fitCandidate logPrices n tc m omega phi = Some f \<Longrightarrow> fit_tc f = tc"
  by (auto simp: handler_fitCandidate_def Let_def split: option.splits if_splits)

lemma gridSearch_Some:
  assumes "fst (gridSearch logPrices n) = Some f"
  shows "fit_r2 f > 0.75 \<and> fit_tc f \<in> set (tcRange n)"
  using grid_loops_Some [OF assms [unfolded gridSearch_def]] fitCandidate_tc by blast

lemma handler_gridSearch_Some:
  assumes "fst (handler_gridSearch logPrices n) = Some f"
  shows "fit_r2 f > 0.75"
  using grid_loops_Some [OF assms [unfolded handler_gridSearch_def]] by blast

subsection \<open>The search finds a fit on the series that lies on the curve\<close>

lemma series_fit_r2: "fit_r2 (series_fit n phi) > 0.75"
  by (simp add: series_fit_def)

lemma gridSearch_series:
  assumes "11 \<le> n"
  shows "\<exists>f. fst (gridSearch (map ln (lppl_series n)) n) = Some f"
    and "\<exists>f. fst (handler_gridSearch (map ln (lppl_series n)) n) = Some f"
proof -
  have n: "2 \<le> n" using assms by simp
  have grid: "1 / 2 \<in> set mRange" "8 \<in> set omegaRange" "0 \<in> set phiRange"
    "pi / 2 \<in> set phiRange"
    by (simp_all add: mRange_def omegaRange_def phiRange_def)
  have hgrid: "1 / 2 \<in> set [0.2, 0.33, 0.5, 0.67, 0.8 :: real]" "8 \<in> set [6, 8, 10, 12 :: real]"
    "0 \<in> set [0, pi / 2, pi, 3 * pi / 2]" "pi / 2 \<in> set [0, pi / 2, pi, 3 * pi / 2]"
    by simp_all
  from series_det_bound [OF assms]
  have "fst (gridSearch (map ln (lppl_series n)) n) \<noteq> None \<and>
        fst (handler_gridSearch (map ln (lppl_series n)) n) \<noteq> None"
  proof
    assume d: "1 / 10 ^ 10 \<le> \<bar>det3 (XtX (series_rows n 0))\<bar>"
    show ?thesis
      unfolding gridSearch_def handler_gridSearch_def
      using grid_loops_found [where candidate = "fitCandidate (map ln (lppl_series n)) n", OF first_tc(1) grid(1,2,3) fitCandidate_series(1) [OF d n] series_fit_r2]
        grid_loops_found [where candidate = "handler_fitCandidate (map ln (lppl_series n)) n", OF first_tc(2) hgrid(1,2,3) fitCandidate_series(2) [OF d n] series_fit_r2]
      by simp
  next
    assume d: "1 / 10 ^ 10 \<le> \<bar>det3 (XtX (series_rows n (pi / 2)))\<bar>"
    show ?thesis
      unfolding gridSearch_def handler_gridSearch_def
      using grid_loops_found [where candidate = "fitCandidate (map ln (lppl_series n)) n", OF first_tc(1) grid(1,2,4) fitCandidate_series(1) [OF d n] series_fit_r2]
        grid_loops_found [where candidate = "handler_fitCandidate (map ln (lppl_series n)) n", OF first_tc(2) hgrid(1,2,4) fitCandidate_series(2) [OF d n] series_fit_r2]
      by simp
  qed
  then show "\<exists>f. fst (gridSearch (map ln (lppl_series n)) n) = Some f"
    and "\<exists>f. fst (handler_gridSearch (map ln (lppl_series n)) n) = Some f"
    by auto
qed

subsection \<open>The result of a successful search\<close>

lemma conclude_Some:
  assumes "fit_r2 f > 0.75"
  shows "confidence (conclude n (Some f)) = spec_clamp ((fit_r2 f - 0.75) / 0.20) 0 1"
    and "tcDays (conclude n (Some f)) = Present (round (real (fit_tc f) - real n + 1))"
    and "isBubble (conclude n (Some f)) \<longleftrightarrow>
           confidence (conclude n (Some f)) > 0.3
           \<and> 5 < round (real (fit_tc f) - real n + 1)
           \<and> round (real (fit_tc f) - real n + 1) < 200"
    and "r2 (conclude n (Some f)) = fit_r2 f"
    and "params (conclude n (Some f)) = Some f"
  using assms
  by (simp_all add: conclude_def Let_def spec_clamp_def js_round_def round_def max_def min_def)

text \<open>
  C3.  When the grid search ends with a best candidate \<open>f\<close> (its R-squared is then above
  0.75; the prices are positive), \<open>optimize\<close> returns
  \<open>confidence = clamp((r2 - 0.75) / 0.20, 0, 1)\<close>,
  \<open>tcDays = round(tc - n + 1)\<close> and \<open>isBubble\<close> true exactly when \<open>confidence > 0.3\<close> and
  \<open>5 < tcDays < 200\<close>.  Here \<open>n\<close> is the length of the series the search ran on: the whole
  series in the library, the last 500 prices in the handler's copy.
\<close>

theorem optimize_best_candidate:
  assumes "100 \<le> length prices" and "\<forall>p\<in>set prices. 0 < p"
  shows "(\<forall>f. fst (gridSearch (map ln prices) (length prices)) = Some f \<longrightarrow>
            fit_r2 f > 0.75 \<and>
            confidence (optimize prices dates) = spec_clamp ((fit_r2 f - 0.75) / 0.20) 0 1 \<and>
            tcDays (optimize prices dates) =
              Present (round (real (fit_tc f) - real (length prices) + 1)) \<and>
            (isBubble (optimize prices dates) \<longleftrightarrow>
               confidence (optimize prices dates) > 0.3
               \<and> 5 < round (real (fit_tc f) - real (length prices) + 1)
               \<and> round (real (fit_tc f) - real (length prices) + 1) < 200)) \<and>
         (\<forall>recent g. recent = js_slice_from prices (- 500) \<longrightarrow>
            fst (handler_gridSearch (map ln recent) (length recent)) = Some g \<longrightarrow>
            fit_r2 g > 0.75 \<and>
            confidence (handler_optimize prices) = spec_clamp ((fit_r2 g - 0.75) / 0.20) 0 1 \<and>
            tcDays (handler_optimize prices) =
              Present (round (real (fit_tc g) - real (length recent) + 1)) \<and>
            (isBubble (handler_optimize prices) \<longleftrightarrow>
               confidence (handler_optimize prices) > 0.3
               \<and> 5 < round (real (fit_tc g) - real (length recent) + 1)
               \<and> round (real (fit_tc g) - real (length recent) + 1) < 200))"
proof (intro conjI allI impI)
  fix f assume f: "fst (gridSearch (map ln prices) (length prices)) = Some f"
  then show r: "fit_r2 f > 0.75" using gridSearch_Some by blast
  have o: "optimize prices dates = conclude (length prices) (Some f)"
    using assms f by (simp add: optimize_def Let_def)
  show "confidence (optimize prices dates) = spec_clamp ((fit_r2 f - 0.75) / 0.20) 0 1"
    unfolding o by (rule conclude_Some(1) [OF r])
  show "tcDays (optimize prices dates) =
          Present (round (real (fit_tc f) - real (length prices) + 1))"
    unfolding o by (rule conclude_Some(2) [OF r])
  show "isBubble (optimize prices dates) \<longleftrightarrow>
          confidence (optimize prices dates) > 0.3
          \<and> 5 < round (real (fit_tc f) - real (length prices) + 1)
          \<and> round (real (fit_tc f) - real (length prices) + 1) < 200"
    unfolding o by (rule conclude_Some(3) [OF r])
next
  fix recent g
  assume rc: "recent = js_slice_from prices (- 500)"
    and g: "fst (handler_gridSearch (map ln recent) (length recent)) = Some g"
  then show r: "fit_r2 g > 0.75" using handler_gridSearch_Some by blast
  have o: "handler_optimize prices = conclude (length recent) (Some g)"
    using assms g by (simp add: handler_optimize_def Let_def rc)
  show "confidence (handler_optimize prices) = spec_clamp ((fit_r2 g - 0.75) / 0.20) 0 1"
    unfolding o by (rule conclude_Some(1) [OF r])
  show "tcDays (handler_optimize prices) =
          Present (round (real (fit_tc g) - real (length recent) + 1))"
    unfolding o by (rule conclude_Some(2) [OF r])
  show "isBubble (handler_optimize prices) \<longleftrightarrow>
          confidence (handler_optimize prices) > 0.3
          \<and> 5 < round (real (fit_tc g) - real (length recent) + 1)
          \<and> round (real (fit_tc g) - real (length recent) + 1) < 200"
    unfolding o by (rule conclude_Some(3) [OF r])
qed

lemma js_slice_from_short: "int (length xs) \<le> k \<Longrightarrow> js_slice_from xs (- k) = xs"
  by (cases "k = 0") (simp_all add: js_slice_from_def js_slice_def Let_def max_def)

lemma js_slice_from_long:
  "0 < k \<Longrightarrow> k \<le> int (length xs) \<Longrightarrow>
   js_slice_from xs (- k) = drop (length xs - nat k) xs \<and> length (js_slice_from xs (- k)) = nat k"
  by (auto simp add: js_slice_from_def js_slice_def Let_def max_def nat_diff_distrib)

lemma lppl_series_pos: "\<forall>p\<in>set (lppl_series n). 0 < p"
  by (simp add: lppl_series_def)

theorem optimize_best_candidate_witness:
  "100 \<le> length (lppl_series 100) \<and>
   js_slice_from (lppl_series 100) (- 500) = lppl_series 100 \<and>
   (\<exists>f. fst (gridSearch (map ln (lppl_series 100)) (length (lppl_series 100))) = Some f \<and>
        fit_r2 f > 0.75 \<and>
        confidence (optimize (lppl_series 100) []) = spec_clamp ((fit_r2 f - 0.75) / 0.20) 0 1 \<and>
        tcDays (optimize (lppl_series 100) []) =
          Present (round (real (fit_tc f) - real (length (lppl_series 100)) + 1)) \<and>
        isBubble (optimize (lppl_series 100) []) =
          (confidence (optimize (lppl_series 100) []) > 0.3
           \<and> 5 < round (real (fit_tc f) - real (length (lppl_series 100)) + 1)
           \<and> round (real (fit_tc f) - real (length (lppl_series 100)) + 1) < 200)) \<and>
   (\<exists>g. fst (handler_gridSearch (map ln (lppl_series 100)) (length (lppl_series 100))) = Some g \<and>
        fit_r2 g > 0.75 \<and>
        confidence (handler_optimize (lppl_series 100)) =
          spec_clamp ((fit_r2 g - 0.75) / 0.20) 0 1 \<and>
        tcDays (handler_optimize (lppl_series 100)) =
          Present (round (real (fit_tc g) - real (length (lppl_series 100)) + 1)) \<and>
        isBubble (handler_optimize (lppl_series 100)) =
          (confidence (handler_optimize (lppl_series 100)) > 0.3
           \<and> 5 < round (real (fit_tc g) - real (length (lppl_series 100)) + 1)
           \<and> round (real (fit_tc g) - real (length (lppl_series 100)) + 1) < 200))"
proof -
  have s: "js_slice_from (lppl_series 100) (- 500) = lppl_series 100"
    by (rule js_slice_from_short) simp
  have l: "100 \<le> length (lppl_series 100)" by simp
  obtain f where f: "fst (gridSearch (map ln (lppl_series 100)) (length (lppl_series 100))) = Some f"
    using gridSearch_series(1) [of 100] by auto
  obtain g where
    g: "fst (handler_gridSearch (map ln (lppl_series 100)) (length (lppl_series 100))) = Some g"
    using gridSearch_series(2) [of 100] by auto
  show ?thesis
    using optimize_best_candidate [OF l lppl_series_pos, of "[]"] f g s by auto
qed

subsection \<open>Truncation to the last 500 prices\<close>

text \<open>
  The handler's copy of \<open>optimize\<close> fits the last 500 prices only: on a longer series it
  returns what it returns on those 500 prices.
\<close>

lemma handler_optimize_truncates:
  assumes "500 < length prices"
  shows "handler_optimize prices = handler_optimize (js_slice_from prices (- 500))"
proof -
  have l: "length (js_slice_from prices (- 500)) = 500"
    using js_slice_from_long [of 500 prices] assms by simp
  have "js_slice_from (js_slice_from prices (- 500)) (- 500) = js_slice_from prices (- 500)"
    by (rule js_slice_from_short) (simp add: l)
  then show ?thesis
    using assms by (simp add: handler_optimize_def Let_def l)
qed

lemma conclude_params:
  "params (conclude n None) = None"
  "fit_r2 f > 0.75 \<Longrightarrow> params (conclude n (Some f)) = Some f"
  by (simp_all add: conclude_def Let_def)

text \<open>
  C1.  The library's \<open>optimize\<close> (exported as \<open>optimizeLPPL\<close>) does not truncate: on the
  series of 501 prices that lies on the LPPL curve it returns a fit whose critical time is
  one of 506, 516, ..., while on the last 500 of these prices every fit has critical time
  505, 515, ...; the two results differ.
\<close>

theorem optimize_does_not_truncate:
  "500 < length (lppl_series 501) \<and>
   optimizeLPPL (lppl_series 501) [] \<noteq> optimizeLPPL (js_slice_from (lppl_series 501) (- 500)) []"
proof -
  define recent where "recent = js_slice_from (lppl_series 501) (- 500)"
  have l: "length recent = 500"
    unfolding recent_def using js_slice_from_long [of 500 "lppl_series 501"] by simp
  obtain f where f: "fst (gridSearch (map ln (lppl_series 501)) 501) = Some f"
    using gridSearch_series(1) [of 501] by auto
  have ff: "fit_r2 f > 0.75" "fit_tc f mod 10 = 6"
    using gridSearch_Some [OF f] tcRange_mod [of "fit_tc f" 501] by simp_all
  have full: "params (optimize (lppl_series 501) []) = Some f"
    using f conclude_params(2) [OF ff(1)] by (simp add: optimize_def Let_def)
  have part: "params (optimize recent []) \<noteq> Some f"
  proof (cases "fst (gridSearch (map ln recent) 500)")
    case None
    then show ?thesis by (simp add: optimize_def Let_def l conclude_params(1))
  next
    case (Some g)
    have gg: "fit_r2 g > 0.75" "fit_tc g mod 10 = 5"
      using gridSearch_Some [OF Some] tcRange_mod [of "fit_tc g" 500] by simp_all
    then have "g \<noteq> f" using ff(2) by auto
    then show ?thesis
      using Some conclude_params(2) [OF gg(1)] by (simp add: optimize_def Let_def l)
  qed
  from full part have "optimize (lppl_series 501) [] \<noteq> optimize recent []" by auto
  then show ?thesis by (simp add: optimizeLPPL_def recent_def)
qed

section \<open>Properties of the engine in double precision\<close>

subsection \<open>Powers of two and rounding\<close>

lemma pow2_powr: "pow2 e = 2 powr (of_int e)"
proof (cases "0 \<le> e")
  case True
  then have "2 powr (of_int e) = (2::real) powr (real (nat e))" by simp
  also have "\<dots> = 2 ^ nat e" by (rule powr_realpow) simp
  finally show ?thesis using True by (simp add: pow2_def)
next
  case False
  then have "2 powr (of_int e) = (2::real) powr (- real (nat (- e)))" by simp
  also have "\<dots> = 1 / 2 powr (real (nat (- e)))" by (simp add: powr_minus field_simps)
  also have "2 powr (real (nat (- e))) = (2::real) ^ nat (- e)" by (rule powr_realpow) simp
  finally show ?thesis using False by (simp add: pow2_def)
qed

lemma pow2_pos [simp]: "0 < pow2 e"
  by (simp add: pow2_powr)

lemma pow2_abs [simp]: "\<bar>pow2 e\<bar> = pow2 e"
  using pow2_pos [of e] by linarith

lemma pow2_add: "pow2 (a + b) = pow2 a * pow2 b"
  by (simp add: pow2_powr powr_add)

lemma pow2_mono: "a \<le> b \<Longrightarrow> pow2 a \<le> pow2 b"
  by (simp add: pow2_powr)

lemma binade_eq:
  assumes "pow2 k \<le> \<bar>x\<bar>" and "\<bar>x\<bar> < pow2 (k + 1)"
  shows "binade x = k"
proof -
  have pos: "0 < \<bar>x\<bar>" using assms(1) pow2_pos [of k] by linarith
  have "of_int k \<le> log 2 \<bar>x\<bar>"
    using assms(1) pos by (subst le_log_iff) (simp_all add: pow2_powr)
  moreover have "log 2 \<bar>x\<bar> < of_int k + 1"
    using assms(2) pos by (subst log_less_iff) (simp_all add: pow2_powr)
  ultimately show ?thesis unfolding binade_def by (subst floor_eq_iff) simp
qed

lemma rne_near:
  assumes "of_int m - 1 / 2 < x" and "x < of_int m + 1 / 2"
  shows "rne x = m"
proof (cases "of_int m \<le> x")
  case True
  then have "\<lfloor>x\<rfloor> = m" using assms(2) by (subst floor_eq_iff) simp
  then show ?thesis using assms(2) by (simp add: rne_def Let_def)
next
  case False
  then have f: "\<lfloor>x\<rfloor> = m - 1" using assms(1) by (subst floor_eq_iff) simp
  show ?thesis using assms(1) by (simp add: rne_def Let_def f)
qed

lemma rne_tie: "rne (of_int m + 1 / 2) = (if even m then m else m + 1)"
proof -
  have "\<lfloor>of_int m + 1 / 2 :: real\<rfloor> = m" by (subst floor_eq_iff) simp
  then show ?thesis by (simp add: rne_def Let_def)
qed

lemma fl_zero [simp]: "fl 0 = Fin 0"
  by (simp add: fl_def round53_def)

lemma pow2_binade_le: "x \<noteq> 0 \<Longrightarrow> pow2 (binade x) \<le> \<bar>x\<bar>"
proof -
  assume "x \<noteq> 0"
  then have pos: "0 < \<bar>x\<bar>" by simp
  have "real_of_int \<lfloor>log 2 \<bar>x\<bar>\<rfloor> \<le> log 2 \<bar>x\<bar>" by simp
  then have "2 powr (real_of_int \<lfloor>log 2 \<bar>x\<bar>\<rfloor>) \<le> \<bar>x\<bar>"
    using pos by (subst (asm) le_log_iff) simp_all
  then show ?thesis by (simp add: pow2_powr binade_def)
qed

lemma binade_ge: "pow2 k \<le> \<bar>x\<bar> \<Longrightarrow> k \<le> binade x"
proof -
  assume a: "pow2 k \<le> \<bar>x\<bar>"
  then have pos: "0 < \<bar>x\<bar>" using pow2_pos [of k] by linarith
  have "of_int k \<le> log 2 \<bar>x\<bar>"
    using a pos by (subst le_log_iff) (simp_all add: pow2_powr)
  then show ?thesis unfolding binade_def by (simp add: le_floor_iff)
qed

lemma rne_ge: "of_int n \<le> z \<Longrightarrow> n \<le> rne z"
proof -
  assume "of_int n \<le> z"
  then have "n \<le> \<lfloor>z\<rfloor>" by (simp add: le_floor_iff)
  then show ?thesis by (simp add: rne_def Let_def)
qed

lemma rne_le: "z \<le> of_int n \<Longrightarrow> rne z \<le> n"
proof (cases "\<lfloor>z\<rfloor> = n")
  case True
  assume "z \<le> of_int n"
  moreover have "of_int \<lfloor>z\<rfloor> \<le> z" by simp
  ultimately have "z = of_int n" using True by simp
  then show ?thesis by (simp add: rne_def Let_def)
next
  case False
  assume "z \<le> of_int n"
  then have "\<lfloor>z\<rfloor> \<le> n" by (simp add: floor_le_iff) 
  with False have "\<lfloor>z\<rfloor> + 1 \<le> n" by simp
  then show ?thesis by (simp add: rne_def Let_def)
qed

lemma round53_large:
  assumes "pow2 1024 \<le> \<bar>x\<bar>"
  shows "0 < x \<Longrightarrow> pow2 1024 \<le> round53 x" and "x < 0 \<Longrightarrow> round53 x \<le> - pow2 1024"
proof -
  let ?k = "binade x"
  let ?q = "pow2 (?k - 52)"
  have "0 < \<bar>x\<bar>" using assms pow2_pos [of 1024] by linarith
  then have x0: "x \<noteq> 0" by simp
  have k: "1024 \<le> ?k" using assms by (rule binade_ge)
  then have m: "max ?k (- 1022) = ?k" by simp
  have y: "round53 x = of_int (rne (x / ?q)) * ?q" using x0 by (simp add: round53_def m Let_def)
  have e: "pow2 ?k = pow2 52 * ?q" using pow2_add [of 52 "?k - 52"] by simp
  have big: "pow2 52 * ?q \<le> \<bar>x\<bar>" using pow2_binade_le [OF x0] by (simp add: e)
  have top: "pow2 1024 \<le> pow2 52 * ?q" using pow2_mono [OF k] by (simp only: e)
  have p52: "pow2 52 = real_of_int (2 ^ 52)" by (simp add: pow2_def)
  show "pow2 1024 \<le> round53 x" if "0 < x"
  proof -
    have "pow2 52 \<le> x / ?q"
      using big that by (simp add: pos_le_divide_eq)
    then have "2 ^ 52 \<le> rne (x / ?q)" unfolding p52 by (rule rne_ge)
    then have "pow2 52 \<le> real_of_int (rne (x / ?q))" unfolding p52 by (simp only: of_int_le_iff)
    then have "pow2 52 * ?q \<le> of_int (rne (x / ?q)) * ?q"
      by (intro mult_right_mono) (simp_all add: less_imp_le)
    with top show ?thesis unfolding y by (rule order_trans)
  qed
  show "round53 x \<le> - pow2 1024" if "x < 0"
  proof -
    have "x / ?q \<le> - pow2 52"
      using big that by (simp add: pos_divide_le_eq)
    then have "x / ?q \<le> real_of_int (- (2 ^ 52))" by (simp add: p52)
    then have "rne (x / ?q) \<le> - (2 ^ 52)" by (rule rne_le)
    then have "real_of_int (rne (x / ?q)) \<le> real_of_int (- (2 ^ 52))"
      by (simp only: of_int_le_iff)
    then have "real_of_int (rne (x / ?q)) \<le> - pow2 52" by (simp add: p52)
    then have "of_int (rne (x / ?q)) * ?q \<le> (- pow2 52) * ?q"
      by (intro mult_right_mono) (simp_all add: less_imp_le)
    then have "of_int (rne (x / ?q)) * ?q \<le> - (pow2 52 * ?q)" by simp
    moreover have "- (pow2 52 * ?q) \<le> - pow2 1024" using top by simp
    ultimately show ?thesis unfolding y by (rule order_trans)
  qed
qed

lemma pow2_1024: "pow2 1024 = 2 ^ 1024"
  by (simp add: pow2_def)

lemma fl_overflow: "2 ^ 1024 \<le> x \<Longrightarrow> fl x = PInf" "x \<le> - (2 ^ 1024) \<Longrightarrow> fl x = NInf"
proof -
  have pos: "0 < pow2 1024" by simp
  show "fl x = PInf" if "2 ^ 1024 \<le> x"
  proof -
    have a: "pow2 1024 \<le> x" using that by (simp only: pow2_1024)
    then have "0 < x" using pos by linarith
    moreover have "pow2 1024 \<le> \<bar>x\<bar>" using a by linarith
    ultimately have "pow2 1024 \<le> round53 x" by (rule round53_large(1) [rotated])
    then show ?thesis unfolding fl_def Let_def pow2_1024 by (simp only: if_True)
  qed
  show "fl x = NInf" if "x \<le> - (2 ^ 1024)"
  proof -
    have a: "x \<le> - pow2 1024" using that by (simp only: pow2_1024)
    then have neg: "x < 0" using pos by linarith
    moreover have "pow2 1024 \<le> \<bar>x\<bar>" using a neg by linarith
    ultimately have r: "round53 x \<le> - pow2 1024" by (rule round53_large(2) [rotated])
    then have "\<not> pow2 1024 \<le> round53 x" using pos by linarith
    then show ?thesis using r unfolding fl_def Let_def pow2_1024 by (simp only: if_False if_True)
  qed
qed


lemma fl_normal:
  assumes "pow2 k \<le> \<bar>x\<bar>" and "\<bar>x\<bar> < pow2 (k + 1)" and "- 1022 \<le> k" and "k \<le> 1022"
  shows "fl x = Fin (of_int (rne (x / pow2 (k - 52))) * pow2 (k - 52))"
proof -
  let ?q = "pow2 (k - 52)"
  let ?m = "rne (x / ?q)"
  have "0 < \<bar>x\<bar>" using assms(1) pow2_pos [of k] by linarith
  then have x0: "x \<noteq> 0" by simp
  have b: "max (binade x) (- 1022) = k" using binade_eq [OF assms(1,2)] assms(3) by simp
  have y: "round53 x = of_int ?m * ?q" using x0 by (simp add: round53_def b Let_def)
  have "k + 1 = 53 + (k - 52)" by simp
  then have e: "pow2 (k + 1) = pow2 53 * ?q" by (simp only: pow2_add)
  have p53: "pow2 53 = real_of_int (2 ^ 53)" by (simp add: pow2_def)
  have "\<bar>x\<bar> / ?q < pow2 53" using assms(2) by (simp add: e pos_divide_less_eq)
  then have z: "\<bar>x / ?q\<bar> < pow2 53" by (simp add: abs_divide)
  have "x / ?q \<le> real_of_int (2 ^ 53)" using z unfolding p53 by linarith
  then have "?m \<le> 2 ^ 53" by (rule rne_le)
  then have u: "real_of_int ?m \<le> pow2 53" unfolding p53 by (simp only: of_int_le_iff)
  have "- pow2 53 \<le> x / ?q" using z by linarith
  then have "real_of_int (- (2 ^ 53)) \<le> x / ?q" by (simp add: p53)
  then have "- (2 ^ 53) \<le> ?m" by (rule rne_ge)
  then have "real_of_int (- (2 ^ 53)) \<le> real_of_int ?m" by (simp only: of_int_le_iff)
  then have l: "- pow2 53 \<le> real_of_int ?m" by (simp add: p53)
  from u l have "\<bar>real_of_int ?m\<bar> \<le> pow2 53" by linarith
  then have "\<bar>of_int ?m * ?q\<bar> \<le> pow2 53 * ?q"
    by (simp add: abs_mult mult_right_mono)
  also have "\<dots> = pow2 (k + 1)" by (simp add: e)
  also have "\<dots> \<le> pow2 1023" using assms(4) by (intro pow2_mono) simp
  also have "\<dots> < pow2 1024" by (simp add: pow2_def)
  finally have "\<bar>of_int ?m * ?q\<bar> < pow2 1024" .
  then have "\<not> pow2 1024 \<le> of_int ?m * ?q" "\<not> of_int ?m * ?q \<le> - pow2 1024"
    by linarith+
  then show ?thesis unfolding fl_def Let_def y pow2_1024 by (simp only: if_False)
qed

lemma fl_near:
  assumes "pow2 k \<le> \<bar>x\<bar>" and "\<bar>x\<bar> < pow2 (k + 1)" and "- 1022 \<le> k" and "k \<le> 1022"
    and "(of_int m - 1 / 2) * pow2 (k - 52) < x" and "x < (of_int m + 1 / 2) * pow2 (k - 52)"
  shows "fl x = Fin (of_int m * pow2 (k - 52))"
proof -
  have "of_int m - 1 / 2 < x / pow2 (k - 52)" "x / pow2 (k - 52) < of_int m + 1 / 2"
    using assms(5,6) by (simp_all add: pos_less_divide_eq pos_divide_less_eq)
  then have "rne (x / pow2 (k - 52)) = m" by (rule rne_near)
  then show ?thesis using fl_normal [OF assms(1-4)] by simp
qed

lemma fl_tie:
  assumes "pow2 k \<le> \<bar>x\<bar>" and "\<bar>x\<bar> < pow2 (k + 1)" and "- 1022 \<le> k" and "k \<le> 1022"
    and "x = (of_int m + 1 / 2) * pow2 (k - 52)"
  shows "fl x = Fin (of_int (if even m then m else m + 1) * pow2 (k - 52))"
proof -
  have "pow2 (k - 52) \<noteq> 0" using pow2_pos [of "k - 52"] by linarith
  then have "x / pow2 (k - 52) = of_int m + 1 / 2" using assms(5) by simp
  then have "rne (x / pow2 (k - 52)) = (if even m then m else m + 1)"
    by (simp only: rne_tie)
  then show ?thesis using fl_normal [OF assms(1-4)] by simp
qed

lemma fl_one: "fl 1 = Fin 1"
  using fl_near [of 0 1 "2 ^ 52"] by (simp add: pow2_def)

subsection \<open>The error of one rounding\<close>










subsection \<open>Rolling AR(1): overflow passes the guard and the clamp\<close>

text \<open>
  The clamp \<open>Math.max(-1, Math.min(1, correlation))\<close> confines every number and both
  infinities to \<open>[-1, 1]\<close>, but not \<open>NaN\<close>: an entry of the output is in \<open>[-1, 1]\<close>
  or it is \<open>NaN\<close>.  When the guard \<open>varCurrent > 0 && varLag > 0\<close> fails on the sums
  as they were computed, the entry is \<open>0\<close>.
\<close>

lemma d_clamp_cases:
  "d_max (Fin (- 1)) (d_min (Fin 1) c) = NaN \<or>
   (\<exists>x. d_max (Fin (- 1)) (d_min (Fin 1) c) = Fin x \<and> - 1 \<le> x \<and> x \<le> 1)"
  by (cases c) auto

lemma dbl_ar1_at_range:
  "dbl_ar1_at res w i = NaN \<or> (\<exists>x. dbl_ar1_at res w i = Fin x \<and> - 1 \<le> x \<and> x \<le> 1)"
  unfolding dbl_ar1_at_def Let_def split_def by (rule d_clamp_cases)

lemma dbl_ar1_at_guard:
  assumes "dbl_ar1_sums res w i = (cov, varCurrent, varLag)"
    and "\<not> (d_less (Fin 0) varCurrent \<and> d_less (Fin 0) varLag)"
  shows "dbl_ar1_at res w i = Fin 0"
  using assms by (auto simp add: dbl_ar1_at_def)

lemma fl_pow700: "fl (2 ^ 700) = Fin (2 ^ 700)" "fl (- (2 ^ 700)) = Fin (- (2 ^ 700))"
  using fl_near [of 700 "2 ^ 700" "2 ^ 52"] fl_near [of 700 "- (2 ^ 700)" "- (2 ^ 52)"]
  by (simp_all add: pow2_def flip: power_add)

lemma fl_pow1400: "fl (2 ^ 700 * 2 ^ 700) = PInf" "fl (- (2 ^ 700 * 2 ^ 700)) = NInf"
  by (rule fl_overflow; simp flip: power_add)+

lemma dbl_rollingAR1_nth:
  "i < length res \<Longrightarrow> dbl_rollingAR1 res windowSize ! i =
     (if int i < windowSize + 1 then None else Some (dbl_ar1_at res windowSize i))"
  by (simp add: dbl_rollingAR1_def)

lemma ar1_overflow:
  fixes B :: real
  assumes "0 < B" and "fl B = Fin B" and "fl (- B) = Fin (- B)"
    and "fl (B * B) = PInf" and "fl (- (B * B)) = NInf"
  shows "dbl_rollingAR1 [Fin (- B), Fin B, Fin (- B), Fin B] 2 ! 3 = Some NaN"
proof -
  let ?res = "[Fin (- B), Fin B, Fin (- B), Fin B]"
  have w: "dbl_ar1_windows ?res 2 3 = ([Fin B, Fin (- B)], [Fin (- B), Fin B])"
    by (simp add: dbl_ar1_windows_def upt_conv_Cons)
  have m: "d_div (foldl d_add (Fin 0) [Fin B, Fin (- B)]) (Fin 2) = Fin 0"
          "d_div (foldl d_add (Fin 0) [Fin (- B), Fin B]) (Fin 2) = Fin 0"
    using assms(2,3) by simp_all
  have s: "dbl_ar1_sums ?res 2 3 = (NInf, PInf, PInf)"
    using assms
    by (simp add: dbl_ar1_sums_def w m dbl_correlation_sums_def upt_conv_Cons d_sub_def Let_def)
  have "dbl_ar1_at ?res 2 3 = NaN"
    by (simp add: dbl_ar1_at_def s)
  then show ?thesis by (simp add: dbl_rollingAR1_nth)
qed

text \<open>
  C4.  Not every entry of the \<open>rollingAR1\<close> output that is not \<open>null\<close> lies in
  \<open>[-1, 1]\<close>.  On the residuals \<open>-2 ^ 700, 2 ^ 700, -2 ^ 700, 2 ^ 700\<close> (finite doubles,
  about \<open>5.3e210\<close>) with window size 2 both window means are \<open>0\<close> and every product
  of two deviations overflows: \<open>cov\<close> is \<open>-Infinity\<close>, \<open>varCurrent\<close> and \<open>varLag\<close> are
  \<open>Infinity\<close>.  The guard \<open>varCurrent > 0 && varLag > 0\<close> holds, the quotient
  \<open>-Infinity / Infinity\<close> is \<open>NaN\<close>, and \<open>Math.max(-1, Math.min(1, NaN))\<close> is \<open>NaN\<close>:
  the entry at index 3 is \<open>NaN\<close>.
\<close>

theorem rollingAR1_overflow:
  "dbl_rollingAR1 [Fin (- (2 ^ 700)), Fin (2 ^ 700), Fin (- (2 ^ 700)), Fin (2 ^ 700)] 2 ! 3
     = Some NaN"
  by (rule ar1_overflow [OF _ fl_pow700 fl_pow1400]) simp

text \<open>
  The guard tests the rounded sums of squares.  On five residuals \<open>0.1\<close> with window
  size 3 the sum \<open>0.1 + 0.1 + 0.1\<close> rounds to \<open>0.30000000000000004\<close> and the mean to
  \<open>0.10000000000000002\<close>; every deviation is \<open>-2 ^ (- 56)\<close>, both sums of squares are
  positive, and the entry at index 4 is \<open>1\<close> where exact arithmetic gives \<open>0\<close>.
\<close>

lemma ar1_constant_window:
  fixes a :: real
  assumes a: "fl a = Fin a"
    and s: "fl (a + a) = Fin s2" "fl (s2 + a) = Fin s3"
    and m: "fl (s3 / 3) = Fin m"
    and e: "fl (a - m) = Fin e"
    and q: "fl (e * e) = Fin q" "fl q = Fin q" "fl (q + q) = Fin q2" "fl (q2 + q) = Fin q3"
    and p: "0 < q3"
    and r: "fl (q3 * q3) = Fin r" "0 \<le> r" "fl (sqrt r) = Fin q3"
  shows "dbl_rollingAR1 [Fin a, Fin a, Fin a, Fin a, Fin a] 3 ! 4 = Some (Fin 1)"
proof -
  let ?res = "[Fin a, Fin a, Fin a, Fin a, Fin a]"
  have w: "dbl_ar1_windows ?res 3 4 = ([Fin a, Fin a, Fin a], [Fin a, Fin a, Fin a])"
    by (simp add: dbl_ar1_windows_def upt_conv_Cons)
  have fs: "foldl d_add (Fin 0) [Fin a, Fin a, Fin a] = Fin s3"
    by (simp only: foldl_Cons foldl_Nil d_add.simps add_0_left a s)
  have mean: "d_div (Fin s3) (Fin (real_of_int 3)) = Fin m"
    by (simp add: m)
  have c: "dbl_correlation_sums [Fin a, Fin a, Fin a] [Fin a, Fin a, Fin a] (Fin m) (Fin m) 3
             = (Fin q3, Fin q3, Fin q3)"
  proof -
    have d: "d_sub (Fin a) (Fin m) = Fin e"
      using e by (simp add: d_sub_def)
    have f: "d_add (Fin 0) (Fin q) = Fin q" by (simp add: q(2))
    have "[0..<nat 3] = [0, 1, 2]" by (simp add: upt_conv_Cons)
    then show ?thesis
      unfolding dbl_correlation_sums_def
      by (simp only: foldl_Cons foldl_Nil Let_def split_conv nth_Cons_0 nth_Cons_Suc
          One_nat_def numeral_2_eq_2 d d_mul.simps q(1) d_add.simps add_0_left q(2,3,4))
  qed
  have "dbl_ar1_sums ?res 3 4 = (Fin q3, Fin q3, Fin q3)"
    by (simp only: dbl_ar1_sums_def w split_conv Let_def fs mean c)
  then have "dbl_ar1_at ?res 3 4 = Fin 1"
    using p r(2) by (simp add: dbl_ar1_at_def r(1) r(3) fl_one)
  then show ?thesis by (simp add: dbl_rollingAR1_nth)
qed

lemma fl_tenth: "fl (3602879701896397 / 2 ^ 55) = Fin (3602879701896397 / 2 ^ 55)"
  using fl_near [of "- 4" "3602879701896397 / 2 ^ 55" 7205759403792794] by (simp add: pow2_def)

lemma fl_two_tenths:
  "fl (3602879701896397 / 2 ^ 55 + 3602879701896397 / 2 ^ 55) = Fin (3602879701896397 / 2 ^ 54)"
  using fl_near [of "- 3" "3602879701896397 / 2 ^ 55 + 3602879701896397 / 2 ^ 55" 7205759403792794]
  by (simp add: pow2_def)

lemma fl_three_tenths:
  "fl (3602879701896397 / 2 ^ 54 + 3602879701896397 / 2 ^ 55) = Fin (1351079888211149 / 2 ^ 52)"
  using fl_tie [of "- 2" "3602879701896397 / 2 ^ 54 + 3602879701896397 / 2 ^ 55" 5404319552844595]
  by (simp add: pow2_def)

lemma fl_mean_tenths:
  "fl (1351079888211149 / 2 ^ 52 / 3) = Fin (7205759403792795 / 2 ^ 56)"
  using fl_near [of "- 4" "1351079888211149 / 2 ^ 52 / 3" 7205759403792795]
  by (simp add: pow2_def)

lemma fl_deviation:
  "fl (3602879701896397 / 2 ^ 55 - 7205759403792795 / 2 ^ 56) = Fin (- (1 / 2 ^ 56))"
  using fl_near [of "- 56" "3602879701896397 / 2 ^ 55 - 7205759403792795 / 2 ^ 56" "- (2 ^ 52)"]
  by (simp add: pow2_def)

lemma fl_squares:
  "fl (- (1 / 2 ^ 56) * - (1 / 2 ^ 56)) = Fin (1 / 2 ^ 112)"
  "fl (1 / 2 ^ 112) = Fin (1 / 2 ^ 112)"
  "fl (1 / 2 ^ 112 + 1 / 2 ^ 112) = Fin (1 / 2 ^ 111)"
  "fl (1 / 2 ^ 111 + 1 / 2 ^ 112) = Fin (3 / 2 ^ 112)"
  "fl (3 / 2 ^ 112 * (3 / 2 ^ 112)) = Fin (9 / 2 ^ 224)"
  using fl_near [of "- 112" "- (1 / 2 ^ 56) * - (1 / 2 ^ 56)" "2 ^ 52"]
    fl_near [of "- 112" "1 / 2 ^ 112" "2 ^ 52"]
    fl_near [of "- 111" "1 / 2 ^ 112 + 1 / 2 ^ 112" "2 ^ 52"]
    fl_near [of "- 111" "1 / 2 ^ 111 + 1 / 2 ^ 112" "3 * 2 ^ 51"]
    fl_near [of "- 221" "3 / 2 ^ 112 * (3 / 2 ^ 112)" "9 * 2 ^ 49"]
  by (simp_all add: pow2_def)

lemma fl_sqrt_squares: "fl (sqrt (9 / 2 ^ 224)) = Fin (3 / 2 ^ 112)"
proof -
  have "sqrt (9 / 2 ^ 224) = (3 / 2 ^ 112 :: real)"
    by (rule real_sqrt_unique) (simp_all add: power2_eq_square)
  moreover have "fl (3 / 2 ^ 112) = Fin (3 / 2 ^ 112)"
    using fl_near [of "- 111" "3 / 2 ^ 112" "3 * 2 ^ 51"] by (simp add: pow2_def)
  ultimately show ?thesis by (simp only:)
qed

lemma rollingAR1_constant_tenths:
  "dbl_rollingAR1 [Fin (3602879701896397 / 2 ^ 55), Fin (3602879701896397 / 2 ^ 55),
                   Fin (3602879701896397 / 2 ^ 55), Fin (3602879701896397 / 2 ^ 55),
                   Fin (3602879701896397 / 2 ^ 55)] 3 ! 4 = Some (Fin 1)"
  by (rule ar1_constant_window [OF fl_tenth fl_two_tenths fl_three_tenths fl_mean_tenths
        fl_deviation fl_squares(1,2,3,4) _ fl_squares(5) _ fl_sqrt_squares]) simp_all

subsection \<open>Detrending: the trend of a single price\<close>
















subsection \<open>Detrending: the trend stays between the least and the greatest price up to rounding\<close>





















end
